theory Spec2Isabelle
  imports Main "HOL-Library.Char_ord"
begin

section \<open>Strings and character classes\<close>

text \<open>
  A JavaScript string is a sequence of UTF-16 code units.  The model uses HOL strings,
  whose characters are the code units 0 to 255; every class of the patterns below is
  written by the code-unit ranges of its regular-expression source.
\<close>

definition in_range :: "char \<Rightarrow> char \<Rightarrow> char \<Rightarrow> bool" where
  "in_range lo hi c = (lo \<le> c \<and> c \<le> hi)"

text \<open>\<^verbatim>\<open>\d\<close> and \<^verbatim>\<open>[0-9]\<close>.\<close>

definition is_digit :: "char \<Rightarrow> bool" where
  "is_digit c = in_range CHR ''0'' CHR ''9'' c"

text \<open>\<^verbatim>\<open>[A-Za-z]\<close>.\<close>

definition is_alpha :: "char \<Rightarrow> bool" where
  "is_alpha c = (in_range CHR ''A'' CHR ''Z'' c \<or> in_range CHR ''a'' CHR ''z'' c)"

text \<open>\<^verbatim>\<open>\w\<close>, the class that decides \<^verbatim>\<open>\b\<close>: letters, digits and the underscore.\<close>

definition is_word :: "char \<Rightarrow> bool" where
  "is_word c = (is_alpha c \<or> is_digit c \<or> c = CHR ''_'')"

text \<open>\<^verbatim>\<open>\s\<close> restricted to the code units below 256: TAB, LF, VT, FF, CR, SP and NBSP.\<close>

definition is_space :: "char \<Rightarrow> bool" where
  "is_space c = (in_range (CHR 0x09) (CHR 0x0D) c \<or> c = CHR '' '' \<or> c = CHR 0xA0)"

section \<open>Backtracking matchers\<close>

text \<open>
  A position is the code unit before the cursor (if any) and the input that remains.
  A matcher returns every position at which it can end, in the order in which the
  backtracking engine tries them; the engine's match is the first of them.
\<close>

type_synonym pos = "char option \<times> string"
type_synonym matcher = "pos \<Rightarrow> pos list"

fun m_char :: "(char \<Rightarrow> bool) \<Rightarrow> matcher" where
  "m_char P (p, []) = []"
| "m_char P (p, c # cs) = (if P c then [(Some c, cs)] else [])"

definition m_lit :: "char \<Rightarrow> matcher" where
  "m_lit a = m_char (\<lambda>c. c = a)"

definition m_eps :: matcher where
  "m_eps x = [x]"

definition m_seq :: "matcher \<Rightarrow> matcher \<Rightarrow> matcher" where
  "m_seq m1 m2 x = concat (map m2 (m1 x))"

definition m_alt :: "matcher \<Rightarrow> matcher \<Rightarrow> matcher" where
  "m_alt m1 m2 x = m1 x @ m2 x"

text \<open>\<^verbatim>\<open>r?\<close> (greedy): one iteration first, then none.\<close>

definition m_opt :: "matcher \<Rightarrow> matcher" where
  "m_opt m = m_alt m m_eps"

text \<open>A literal string, as in the alternatives \<^verbatim>\<open>000|666\<close>.\<close>

fun m_str :: "string \<Rightarrow> matcher" where
  "m_str [] = m_eps"
| "m_str (a # as) = m_seq (m_lit a) (m_str as)"

text \<open>Negative lookahead \<^verbatim>\<open>(?!r)\<close>: succeeds, consuming nothing, when \<open>r\<close> cannot match here.\<close>

definition m_not :: "matcher \<Rightarrow> matcher" where
  "m_not m x = (if m x = [] then [x] else [])"

text \<open>\<^verbatim>\<open>\b\<close>: exactly one of the two neighbours of the cursor is a word character.\<close>

fun word_before :: "pos \<Rightarrow> bool" where
  "word_before (None, cs) = False"
| "word_before (Some c, cs) = is_word c"

fun word_after :: "pos \<Rightarrow> bool" where
  "word_after (p, []) = False"
| "word_after (p, c # cs) = is_word c"

definition m_wordb :: matcher where
  "m_wordb x = (if word_before x \<noteq> word_after x then [x] else [])"

text \<open>
  Bounded repetition \<^verbatim>\<open>r{min,max}\<close> (greedy).  The mandatory iterations come first; an
  optional iteration that consumes nothing is refused, as the engine's empty check does.
\<close>

fun m_repeat :: "nat \<Rightarrow> nat \<Rightarrow> matcher \<Rightarrow> matcher" where
  "m_repeat mn 0 m x = [x]"
| "m_repeat mn (Suc mx) m x =
     (if mn = 0
      then concat (map (\<lambda>y. if length (snd y) < length (snd x) then m_repeat 0 mx m y else [])
                       (m x)) @ [x]
      else concat (map (m_repeat (mn - 1) mx m) (m x)))"

text \<open>
  Unbounded greedy repetition \<^verbatim>\<open>r*\<close>.  Every iteration must consume input, so no more
  iterations are possible than code units remain.
\<close>

definition m_star :: "matcher \<Rightarrow> matcher" where
  "m_star m x = m_repeat 0 (length (snd x)) m x"

text \<open>\<^verbatim>\<open>r{n,}\<close>, with \<^verbatim>\<open>r+\<close> as \<^verbatim>\<open>r{1,}\<close>.\<close>

fun m_repeat_from :: "nat \<Rightarrow> matcher \<Rightarrow> matcher" where
  "m_repeat_from 0 m = m_star m"
| "m_repeat_from (Suc n) m = m_seq m (m_repeat_from n m)"

definition m_plus :: "matcher \<Rightarrow> matcher" where
  "m_plus m = m_repeat_from 1 m"

text \<open>Lazy repetition \<^verbatim>\<open>r*?\<close>: no iteration first, then one more.\<close>

fun m_lazy_fuel :: "nat \<Rightarrow> matcher \<Rightarrow> matcher" where
  "m_lazy_fuel 0 m x = [x]"
| "m_lazy_fuel (Suc k) m x =
     x # concat (map (\<lambda>y. if length (snd y) < length (snd x) then m_lazy_fuel k m y else [])
                     (m x))"

definition m_lazy_star :: "matcher \<Rightarrow> matcher" where
  "m_lazy_star m x = m_lazy_fuel (length (snd x)) m x"

text \<open>A sequence of matchers.\<close>

fun m_seqs :: "matcher list \<Rightarrow> matcher" where
  "m_seqs [] = m_eps"
| "m_seqs [m] = m"
| "m_seqs (m # ms) = m_seq m (m_seqs ms)"

section \<open>The patterns\<close>

text \<open>\<^verbatim>\<open>(?:25[0-5]|2[0-4][0-9]|[01]?[0-9][0-9]?)\<close>\<close>

definition octet :: matcher where
  "octet =
     m_alt (m_seqs [m_lit CHR ''2'', m_lit CHR ''5'', m_char (in_range CHR ''0'' CHR ''5'')])
    (m_alt (m_seqs [m_lit CHR ''2'', m_char (in_range CHR ''0'' CHR ''4''), m_char is_digit])
           (m_seqs [m_opt (m_char (\<lambda>c. c = CHR ''0'' \<or> c = CHR ''1'')),
                    m_char is_digit, m_opt (m_char is_digit)]))"

text \<open>\<^verbatim>\<open>/\b(?:(?:25[0-5]|2[0-4][0-9]|[01]?[0-9][0-9]?)\.){3}(?:25[0-5]|2[0-4][0-9]|[01]?[0-9][0-9]?)\b/g\<close>\<close>

definition IPV4 :: matcher where
  "IPV4 = m_seqs [m_wordb, m_repeat 3 3 (m_seq octet (m_lit CHR ''.'')), octet, m_wordb]"

text \<open>\<^verbatim>\<open>[A-Za-z0-9._%+-]\<close> and \<^verbatim>\<open>[A-Za-z0-9.-]\<close>\<close>

definition is_local :: "char \<Rightarrow> bool" where
  "is_local c = (is_alpha c \<or> is_digit c \<or> c = CHR ''.'' \<or> c = CHR ''_'' \<or> c = CHR ''%''
                 \<or> c = CHR ''+'' \<or> c = CHR ''-'')"

definition is_domain :: "char \<Rightarrow> bool" where
  "is_domain c = (is_alpha c \<or> is_digit c \<or> c = CHR ''.'' \<or> c = CHR ''-'')"

text \<open>\<^verbatim>\<open>/\b[A-Za-z0-9._%+-]+@[A-Za-z0-9.-]+\.[A-Za-z]{2,}\b/g\<close>\<close>

definition EMAIL :: matcher where
  "EMAIL = m_seqs [m_wordb, m_plus (m_char is_local), m_lit CHR ''@'',
                   m_plus (m_char is_domain), m_lit CHR ''.'',
                   m_repeat_from 2 (m_char is_alpha), m_wordb]"

text \<open>\<^verbatim>\<open>/\b(?!000|666|9\d{2})-?\d{3}-(?!00)-?\d{2}-(?!0000)-?\d{4}\b/g\<close>\<close>

definition SSN_US :: matcher where
  "SSN_US = m_seqs [m_wordb,
                    m_not (m_alt (m_str ''000'')
                          (m_alt (m_str ''666'')
                                 (m_seq (m_lit CHR ''9'') (m_repeat 2 2 (m_char is_digit))))),
                    m_opt (m_lit CHR ''-''), m_repeat 3 3 (m_char is_digit), m_lit CHR ''-'',
                    m_not (m_str ''00''),
                    m_opt (m_lit CHR ''-''), m_repeat 2 2 (m_char is_digit), m_lit CHR ''-'',
                    m_not (m_str ''0000''),
                    m_opt (m_lit CHR ''-''), m_repeat 4 4 (m_char is_digit), m_wordb]"

text \<open>\<^verbatim>\<open>/\b(?:\d[ -]*?){13,19}\b/g\<close>\<close>

definition CREDIT_CARD :: matcher where
  "CREDIT_CARD =
     m_seqs [m_wordb,
             m_repeat 13 19
               (m_seq (m_char is_digit)
                      (m_lazy_star (m_char (\<lambda>c. c = CHR '' '' \<or> c = CHR ''-'')))),
             m_wordb]"

text \<open>\<^verbatim>\<open>[-.\s]\<close>\<close>

definition is_sep :: "char \<Rightarrow> bool" where
  "is_sep c = (c = CHR ''-'' \<or> c = CHR ''.'' \<or> is_space c)"

text \<open>
  \<^verbatim>\<open>/\b(?:\+?1[-.\s]?)?\(?([0-9]{3})\)?[-.\s]?([0-9]{3})[-.\s]?([0-9]{4})\b/g\<close>;
  the capture groups are never read, so they are plain groups here.
\<close>

definition PHONE_US :: matcher where
  "PHONE_US =
     m_seqs [m_wordb,
             m_opt (m_seqs [m_opt (m_lit CHR ''+''), m_lit CHR ''1'', m_opt (m_char is_sep)]),
             m_opt (m_lit CHR ''(''), m_repeat 3 3 (m_char is_digit), m_opt (m_lit CHR '')''),
             m_opt (m_char is_sep), m_repeat 3 3 (m_char is_digit),
             m_opt (m_char is_sep), m_repeat 4 4 (m_char is_digit), m_wordb]"

section \<open>Global replacement with a callback\<close>

text \<open>
  \<^verbatim>\<open>String.prototype.replace\<close> with a global pattern first collects the matches, scanning
  from the left: at each index the pattern is tried; on a match the scan resumes at the
  match's end (one further on after an empty match), otherwise at the next index.  The
  input is thereby cut into unmatched code units and matches.
\<close>

datatype seg = Lit char | Match string

function scan :: "matcher \<Rightarrow> char option \<Rightarrow> string \<Rightarrow> seg list" where
  "scan m p [] = (case m (p, []) of [] \<Rightarrow> [] | y # ys \<Rightarrow> [Match []])"
| "scan m p (c # cs) =
     (case m (p, c # cs) of
        [] \<Rightarrow> Lit c # scan m (Some c) cs
      | y # ys \<Rightarrow>
          (if length (snd y) < Suc (length cs)
           then Match (take (Suc (length cs) - length (snd y)) (c # cs))
                  # scan m (Some (last (take (Suc (length cs) - length (snd y)) (c # cs))))
                           (drop (Suc (length cs) - length (snd y)) (c # cs))
           else Match [] # Lit c # scan m (Some c) cs))"
  by pat_completeness auto
termination
  by (relation "measure (\<lambda>(m, p, s). length s)") auto

text \<open>Then the callback is called on every match, left to right, threading its counter.\<close>

fun subst :: "(string \<Rightarrow> nat \<Rightarrow> string \<times> nat) \<Rightarrow> seg list \<Rightarrow> nat \<Rightarrow> string \<times> nat" where
  "subst cb [] n = ([], n)"
| "subst cb (Lit c # segs) n = (case subst cb segs n of (t, n') \<Rightarrow> (c # t, n'))"
| "subst cb (Match w # segs) n =
     (case cb w n of (r, n1) \<Rightarrow> (case subst cb segs n1 of (t, n2) \<Rightarrow> (r @ t, n2)))"

definition replace_cb :: "matcher \<Rightarrow> (string \<Rightarrow> nat \<Rightarrow> string \<times> nat) \<Rightarrow> string \<Rightarrow> nat \<Rightarrow> string \<times> nat" where
  "replace_cb pattern cb s n = subst cb (scan pattern None s) n"

section \<open>The redaction pipe\<close>

text \<open>The object \<^verbatim>\<open>redactionMap\<close>: its keys in insertion order.\<close>

type_synonym obj = "(string \<times> nat) list"

fun obj_set :: "obj \<Rightarrow> string \<Rightarrow> nat \<Rightarrow> obj" where
  "obj_set [] k v = [(k, v)]"
| "obj_set ((k', v') # kvs) k v = (if k' = k then (k, v) # kvs else (k', v') # obj_set kvs k v)"

record run =
  redactedText :: string
  totalRedactions :: nat
  redactionMap :: obj

text \<open>The callback of \<^verbatim>\<open>applyRedaction\<close>: a match the validator refuses is returned as it is.\<close>

definition redaction_callback ::
  "(string \<Rightarrow> bool) option \<Rightarrow> string \<Rightarrow> string \<Rightarrow> nat \<Rightarrow> string \<times> nat" where
  "redaction_callback validator placeholder mtch count =
     (case validator of
        Some v \<Rightarrow> if \<not> v mtch then (mtch, count) else (placeholder, count + 1)
      | None \<Rightarrow> (placeholder, count + 1))"

text \<open>\<^verbatim>\<open>redactionMap[type] || 0\<close>\<close>

definition or_zero :: "nat option \<Rightarrow> nat" where
  "or_zero v = (case v of None \<Rightarrow> 0 | Some n \<Rightarrow> n)"

definition applyRedaction ::
  "matcher \<Rightarrow> string \<Rightarrow> string \<Rightarrow> (string \<Rightarrow> bool) option \<Rightarrow> run \<Rightarrow> run" where
  "applyRedaction pattern placeholder type validator st =
     (case replace_cb pattern (redaction_callback validator placeholder) (redactedText st) 0 of
        (t, count) \<Rightarrow>
          \<lparr> redactedText = t,
            totalRedactions = totalRedactions st + count,
            redactionMap = obj_set (redactionMap st) type
                             (or_zero (map_of (redactionMap st) type) + count) \<rparr>)"

subsection \<open>The checksum helper\<close>

text \<open>\<^verbatim>\<open>parseInt(ch, 10)\<close> of one code unit; \<open>None\<close> is NaN.\<close>

definition parseInt :: "char \<Rightarrow> int option" where
  "parseInt c = (if is_digit c then Some (int (of_char c) - 48) else None)"

text \<open>
  The loop of \<^verbatim>\<open>isValidCreditCard\<close>, \<open>k\<close> being \<open>i + 1\<close>.  The doubled and adjusted digit
  is computed and then dropped: the statement that accumulates is \<^verbatim>\<open>sum += 2\<close>.
\<close>

fun luhn_loop :: "string \<Rightarrow> nat \<Rightarrow> int \<Rightarrow> bool \<Rightarrow> int" where
  "luhn_loop digits 0 sum_acc isEven = sum_acc"
| "luhn_loop digits (Suc i) sum_acc isEven =
     (let digit = parseInt (digits ! i);
          digit = (if isEven
                   then map_option (\<lambda>d. if d * 2 > 9 then d * 2 - 9 else d * 2) digit
                   else digit)
      in luhn_loop digits i (sum_acc + 2) (\<not> isEven))"

definition isValidCreditCard :: "string \<Rightarrow> bool" where
  "isValidCreditCard number =
     (let digits = filter (\<lambda>c. \<not> (is_space c \<or> c = CHR ''-'')) number
      in luhn_loop digits (length digits) 0 False mod 10 = 0)"

subsection \<open>The call sequence\<close>

definition redact :: "string \<Rightarrow> run" where
  "redact text =
     applyRedaction CREDIT_CARD ''[REDACTED]'' ''credit_card'' (Some isValidCreditCard)
    (applyRedaction PHONE_US ''[REDACTED]'' ''phone_us'' None
    (applyRedaction SSN_US ''[REDACTED]'' ''ssn_us'' None
    (applyRedaction EMAIL ''[REDACTED]'' ''email'' None
    (applyRedaction IPV4 ''[REDACTED]'' ''ipv4'' None
       \<lparr> redactedText = text, totalRedactions = 0, redactionMap = [] \<rparr>))))"

section \<open>The request handler\<close>

definition MAX_INPUT_LENGTH :: nat where
  "MAX_INPUT_LENGTH = 1048576"

text \<open>The values a field of the parsed body can have (a number is kept as an integer).\<close>

datatype jsval = Undefined | Null | Boolean bool | Number int | Str string | Object

fun truthy :: "jsval \<Rightarrow> bool" where
  "truthy Undefined = False"
| "truthy Null = False"
| "truthy (Boolean b) = b"
| "truthy (Number n) = (n \<noteq> 0)"
| "truthy (Str s) = (s \<noteq> [])"
| "truthy Object = True"

text \<open>\<^verbatim>\<open>typeof v === "string"\<close>\<close>

fun is_string :: "jsval \<Rightarrow> bool" where
  "is_string (Str s) = True"
| "is_string v = False"

fun str_of :: "jsval \<Rightarrow> string" where
  "str_of (Str s) = s"
| "str_of v = []"

text \<open>The JSON documents the handler answers with: an object keeps its keys in order.\<close>

datatype json = JNum nat | JStr string | JBool bool | JObj "(string \<times> json) list"

fun field :: "json \<Rightarrow> string \<Rightarrow> json option" where
  "field (JObj kvs) k = map_of kvs k"
| "field j k = None"

text \<open>
  What parsing the request as JSON can give: null, a boolean, a number, a string, an
  array, or an object, taken as the map from its keys to their values.
\<close>

datatype json_body =
  BNull | BBoolean bool | BNumber int | BString string | BArray | BObject "string \<rightharpoonup> jsval"

text \<open>What a statement of the handler can throw.\<close>

datatype error = TypeError

text \<open>
  \<^verbatim>\<open>const { text } = body\<close>: destructuring null throws a TypeError; a boolean, a
  number, a string and an array have no property of that name, an object may have one.
\<close>

fun destructure_text :: "json_body \<Rightarrow> error + jsval" where
  "destructure_text BNull = Inl TypeError"
| "destructure_text (BBoolean b) = Inr Undefined"
| "destructure_text (BNumber n) = Inr Undefined"
| "destructure_text (BString s) = Inr Undefined"
| "destructure_text BArray = Inr Undefined"
| "destructure_text (BObject b) = Inr (case b ''text'' of None \<Rightarrow> Undefined | Some v \<Rightarrow> v)"

text \<open>
  The handler of \<^verbatim>\<open>POST /redact\<close>.  The body is \<open>None\<close> when parsing the request as JSON
  throws, which the handler catches, otherwise what the parser returned.  The handler
  returns the HTTP status and the JSON document of its answer, or throws: the
  destructuring of the body is not inside the \<^verbatim>\<open>try\<close>.
\<close>

definition redact_handler :: "json_body option \<Rightarrow> error + nat \<times> json" where
  "redact_handler body =
     (case body of
        None \<Rightarrow>
          Inr (400, JObj [(''success'', JBool False),
                      (''error'', JStr ''Invalid or missing JSON body''),
                      (''code'', JStr ''INVALID_BODY''),
                      (''hint'', JStr (''Ensure request body is valid JSON with a ''
                          @ [CHR 0x27] @ ''text'' @ [CHR 0x27] @ '' property: {''
                          @ [CHR 0x22] @ ''text'' @ [CHR 0x22] @ '': ''
                          @ [CHR 0x22] @ ''Your text here'' @ [CHR 0x22] @ ''}''))])
      | Some b \<Rightarrow>
          (case destructure_text b of
             Inl e \<Rightarrow> Inl e
           | Inr text \<Rightarrow>
               if \<not> truthy text \<or> \<not> is_string text
               then Inr (400, JObj [(''success'', JBool False),
                            (''error'', JStr (''Missing or invalid '' @ [CHR 0x27] @ ''text''
                                @ [CHR 0x27] @ ''. Expected a non-empty string.'')),
                            (''code'', JStr ''INVALID_INPUT'')])
               else if length (str_of text) > MAX_INPUT_LENGTH
               then Inr (413, JObj [(''success'', JBool False),
                            (''error'',
                             JStr ''Input exceeds maximum length of 1048576 characters.''),
                            (''code'', JStr ''INPUT_TOO_LARGE''),
                            (''max_length'', JNum MAX_INPUT_LENGTH),
                            (''received_length'', JNum (length (str_of text)))])
               else (let st = redact (str_of text) in
                 Inr (200, JObj [(''success'', JBool True),
                             (''result'', JStr (redactedText st)),
                             (''metadata'',
                              JObj [(''redactions_count'', JNum (totalRedactions st)),
                                    (''redactions_by_type'',
                                     JObj (map (\<lambda>(k, v). (k, JNum v)) (redactionMap st)))])]))))"

section \<open>Notions of the specification\<close>

text \<open>
  The Luhn checksum as the specification words it: strip the space and dash separators;
  going from the rightmost digit to the left, double every second digit, subtract 9 from a
  doubled value above 9, and sum; the number is valid iff the sum is 0 modulo 10.
\<close>

definition digit_val :: "char \<Rightarrow> nat" where
  "digit_val c = of_char c - 48"

fun luhn_sum_spec :: "nat list \<Rightarrow> bool \<Rightarrow> nat" where
  "luhn_sum_spec [] dbl = 0"
| "luhn_sum_spec (d # ds) dbl =
     (if dbl then (if 2 * d > 9 then 2 * d - 9 else 2 * d) else d) + luhn_sum_spec ds (\<not> dbl)"

definition luhn_spec :: "string \<Rightarrow> bool" where
  "luhn_spec number =
     (luhn_sum_spec (rev (map digit_val (filter (\<lambda>c. c \<noteq> CHR '' '' \<and> c \<noteq> CHR ''-'') number)))
                    False mod 10 = 0)"

text \<open>
  What a pass makes of one segment of its scan: a match is accepted when there is no
  validator or the validator holds of it; an accepted match is rendered as the
  placeholder and counted, everything else is rendered as it is and not counted.
\<close>

definition accepts :: "(string \<Rightarrow> bool) option \<Rightarrow> string \<Rightarrow> bool" where
  "accepts validator w = (case validator of None \<Rightarrow> True | Some v \<Rightarrow> v w)"

fun render :: "(string \<Rightarrow> bool) option \<Rightarrow> string \<Rightarrow> seg \<Rightarrow> string" where
  "render validator placeholder (Lit c) = [c]"
| "render validator placeholder (Match w) = (if accepts validator w then placeholder else w)"

fun counted :: "(string \<Rightarrow> bool) option \<Rightarrow> seg \<Rightarrow> bool" where
  "counted validator (Lit c) = False"
| "counted validator (Match w) = accepts validator w"

definition accepted_count :: "(string \<Rightarrow> bool) option \<Rightarrow> matcher \<Rightarrow> string \<Rightarrow> nat" where
  "accepted_count validator pattern s = length (filter (counted validator) (scan pattern None s))"

text \<open>The text a pass leaves.\<close>

definition pass_text :: "matcher \<Rightarrow> (string \<Rightarrow> bool) option \<Rightarrow> string \<Rightarrow> string" where
  "pass_text pattern validator s =
     concat (map (render validator ''[REDACTED]'') (scan pattern None s))"

text \<open>The matches of a pattern in a text.\<close>

fun match_text :: "seg \<Rightarrow> string option" where
  "match_text (Lit c) = None"
| "match_text (Match w) = Some w"

definition matches :: "matcher \<Rightarrow> string \<Rightarrow> string list" where
  "matches pattern s = List.map_filter match_text (scan pattern None s)"

text \<open>
  A dotted quad in range: four components separated by dots, each of one to three digits
  and of a decimal value of at most 255.
\<close>

fun split_dots :: "string \<Rightarrow> string list" where
  "split_dots [] = [[]]"
| "split_dots (c # cs) =
     (if c = CHR ''.'' then [] # split_dots cs
      else (case split_dots cs of [] \<Rightarrow> [[c]] | w # ws \<Rightarrow> (c # w) # ws))"

definition dec_value :: "string \<Rightarrow> nat" where
  "dec_value w = foldl (\<lambda>n c. 10 * n + digit_val c) 0 w"

definition octet_in_range :: "string \<Rightarrow> bool" where
  "octet_in_range w = (1 \<le> length w \<and> length w \<le> 3 \<and> list_all is_digit w \<and> dec_value w \<le> 255)"

definition dotted_quad_in_range :: "string \<Rightarrow> bool" where
  "dotted_quad_in_range w = (length (split_dots w) = 4 \<and> list_all octet_in_range (split_dots w))"

section \<open>Notions for the stability of the pipe\<close>

text \<open>
  The placeholder is built of letters between two brackets.  No class of any pattern
  contains a bracket.
\<close>

definition not_bracket :: "char \<Rightarrow> bool" where
  "not_bracket c = (c \<noteq> CHR ''['' \<and> c \<noteq> CHR '']'')"

text \<open>The condition of \<^verbatim>\<open>\b\<close> at a position.\<close>

definition boundary :: "pos \<Rightarrow> bool" where
  "boundary x = (word_before x \<noteq> word_after x)"

text \<open>
  A well-formed matcher ends at a suffix of the input where it started, has consumed no
  bracket, and hands on the last code unit it consumed.
\<close>

definition wf_matcher :: "matcher \<Rightarrow> bool" where
  "wf_matcher m =
     (\<forall>x y. y \<in> set (m x) \<longrightarrow>
        (\<exists>w. snd x = w @ snd y \<and> list_all not_bracket w \<and>
             fst y = (if w = [] then fst x else Some (last w))))"

text \<open>Bounds on what a matcher consumes.\<close>

definition minlen :: "nat \<Rightarrow> matcher \<Rightarrow> bool" where
  "minlen n m = (\<forall>x y. y \<in> set (m x) \<longrightarrow> length (snd y) + n \<le> length (snd x))"

definition maxlen :: "nat \<Rightarrow> matcher \<Rightarrow> bool" where
  "maxlen n m = (\<forall>x y. y \<in> set (m x) \<longrightarrow> length (snd x) \<le> length (snd y) + n)"

text \<open>A matcher that can only start, or only end, at a word boundary.\<close>

definition starts_b :: "matcher \<Rightarrow> bool" where
  "starts_b m = (\<forall>x. m x \<noteq> [] \<longrightarrow> boundary x)"

definition ends_b :: "matcher \<Rightarrow> bool" where
  "ends_b m = (\<forall>x y. y \<in> set (m x) \<longrightarrow> boundary y)"

text \<open>A matcher that can only start before a word character, and whose first result ends after one.\<close>

definition starts_word :: "matcher \<Rightarrow> bool" where
  "starts_word m = (\<forall>x. m x \<noteq> [] \<longrightarrow> word_after x)"

definition hd_ends_word :: "matcher \<Rightarrow> bool" where
  "hd_ends_word m = (\<forall>x y ys. m x = y # ys \<longrightarrow> word_before y)"

text \<open>One iteration of a repetition, kept only if it consumed something.\<close>

definition m_progress :: "matcher \<Rightarrow> matcher \<Rightarrow> matcher" where
  "m_progress m k x =
     concat (map (\<lambda>y. if length (snd y) < length (snd x) then k y else []) (m x))"

text \<open>
  A matcher is localised when its results that stay within a prefix common to two inputs
  are the same on both, in the same order: \<open>inside t\<close> are the positions that have not
  gone into the tail \<open>t\<close>, \<open>sim\<close> relates a position of the one input to the
  corresponding position of the other.  The flag says whether the word characters
  around the prefix have to agree, as a pattern with \<^verbatim>\<open>\b\<close> needs.
\<close>

definition inside :: "string \<Rightarrow> pos \<Rightarrow> bool" where
  "inside t y = (\<exists>v. snd y = v @ t)"

definition sim :: "bool \<Rightarrow> string \<Rightarrow> string \<Rightarrow> pos \<Rightarrow> pos \<Rightarrow> bool" where
  "sim b t t' y y' =
     ((b \<longrightarrow> word_before y = word_before y') \<and> (\<exists>v. snd y = v @ t \<and> snd y' = v @ t'))"

definition localised :: "bool \<Rightarrow> matcher \<Rightarrow> bool" where
  "localised b m =
     (\<forall>t t' x x'. (b \<longrightarrow> word_after (None, t) = word_after (None, t')) \<longrightarrow> sim b t t' x x' \<longrightarrow>
        list_all2 (sim b t t') (filter (inside t) (m x)) (filter (inside t') (m x')))"

text \<open>No match of the pattern starts within \<open>u\<close> in the text \<open>u @ t\<close>.\<close>

fun nowhere_upto :: "matcher \<Rightarrow> char option \<Rightarrow> string \<Rightarrow> string \<Rightarrow> bool" where
  "nowhere_upto m p [] t = True"
| "nowhere_upto m p (c # u) t = (m (p, c # u @ t) = [] \<and> nowhere_upto m (Some c) u t)"

text \<open>What the stability proof needs of a pattern.\<close>

definition good :: "matcher \<Rightarrow> bool" where
  "good m = (localised True m \<and> wf_matcher m \<and> minlen 1 m \<and> starts_b m \<and> ends_b m \<and>
             nowhere_upto m (Some CHR ''['') ''REDACTED'' '']'')"

text \<open>The code unit before the rest, after \<open>u\<close> has been passed.\<close>

definition prev_of :: "char option \<Rightarrow> string \<Rightarrow> char option" where
  "prev_of p u = (if u = [] then p else Some (last u))"

text \<open>
  Two tails after a common prefix, the second one empty or opening with a bracket; where
  the word characters after the prefix differ, the prefix ends with a non-word one.
\<close>

definition tails_ok :: "char option \<Rightarrow> string \<Rightarrow> string \<Rightarrow> string \<Rightarrow> bool" where
  "tails_ok p u t t' =
     ((t' = [] \<or> \<not> not_bracket (hd t')) \<and>
      (word_after (None, t) = word_after (None, t') \<or>
       (\<not> word_before (prev_of p u, t) \<and> t' \<noteq> [])))"

text \<open>A pass started with a given code unit before the text, and a pass that accepts no match.\<close>

definition pass_from :: "matcher \<Rightarrow> (string \<Rightarrow> bool) option \<Rightarrow> char option \<Rightarrow> string \<Rightarrow> string" where
  "pass_from m v p s = concat (map (render v ''[REDACTED]'') (scan m p s))"

definition quiet :: "matcher \<Rightarrow> (string \<Rightarrow> bool) option \<Rightarrow> char option \<Rightarrow> string \<Rightarrow> bool" where
  "quiet m v p s = list_all (\<lambda>seg. \<not> counted v seg) (scan m p s)"

text \<open>
  The code unit before a text and the one before what a pass left of it: equal as to
  word characters, or the second a non-word one before a text that starts with a
  non-word one.
\<close>

definition ctx_ok :: "char option \<Rightarrow> char option \<Rightarrow> string \<Rightarrow> bool" where
  "ctx_ok p p' s =
     (word_before (p, s) = word_before (p', s) \<or> (\<not> word_before (p', s) \<and> \<not> word_after (p, s)))"

text \<open>A pattern run with a validator has to start and end its first match with a word character.\<close>

definition validated :: "matcher \<Rightarrow> (string \<Rightarrow> bool) option \<Rightarrow> bool" where
  "validated m v = (v \<noteq> None \<longrightarrow> starts_word m \<and> hd_ends_word m)"

named_theorems wf_intros

named_theorems local_intros

section \<open>The checksum helper counts digits\<close>

lemma luhn_loop_counts: "luhn_loop digits k s e = s + 2 * int k"
  by (induction k arbitrary: s e) (simp_all add: Let_def)

lemma isValidCreditCard_length:
  "isValidCreditCard number =
     (length (filter (\<lambda>c. \<not> (is_space c \<or> c = CHR ''-'')) number) mod 5 = 0)"
  unfolding isValidCreditCard_def Let_def luhn_loop_counts by presburger

text \<open>
  C1.  The sequence 4231 9001 6469 0061 passes the Luhn checksum of the specification,
  yet the validator of the code refuses it and the pipe leaves it in the text with a
  count of zero: the loop adds the constant 2 for every digit, so a 16-digit number sums
  to 32.
\<close>

theorem C1_luhn_valid_card_not_redacted:
  "luhn_spec ''4231 9001 6469 0061'' \<and>
   \<not> isValidCreditCard ''4231 9001 6469 0061'' \<and>
   redact ''4231 9001 6469 0061'' =
     \<lparr> redactedText = ''4231 9001 6469 0061'', totalRedactions = 0,
       redactionMap = [(''ipv4'', 0), (''email'', 0), (''ssn_us'', 0), (''phone_us'', 0),
                       (''credit_card'', 0)] \<rparr>"
  by code_simp

text \<open>
  C7.  In the text "SSN-900-12-3456" the ssn_us pattern matches "-900-12-3456", whose
  area is 900, and the pass redacts it: the optional dash after the lookahead lets a
  match begin at the dash, where the lookahead does not see the area.
\<close>

theorem C7_reserved_area_redacted:
  "matches SSN_US ''SSN-900-12-3456'' = [''-900-12-3456''] \<and>
   redact ''SSN-900-12-3456'' =
     \<lparr> redactedText = ''SSN[REDACTED]'', totalRedactions = 1,
       redactionMap = [(''ipv4'', 0), (''email'', 0), (''ssn_us'', 1), (''phone_us'', 0),
                       (''credit_card'', 0)] \<rparr>"
  by code_simp

section \<open>The engine\<close>

lemma obj_set_sum:
  "sum_list (map snd (obj_set kvs k (or_zero (map_of kvs k) + n))) = sum_list (map snd kvs) + n"
proof (induction kvs)
  case Nil
  show ?case by (simp add: or_zero_def)
next
  case (Cons kv kvs)
  obtain k' v' where kv: "kv = (k', v')" by (cases kv)
  show ?case
  proof (cases "k' = k")
    case True
    then show ?thesis by (simp add: kv or_zero_def)
  next
    case False
    then show ?thesis using Cons.IH by (simp add: kv)
  qed
qed

lemma obj_set_keys:
  "map fst (obj_set kvs k v) = (if k \<in> set (map fst kvs) then map fst kvs else map fst kvs @ [k])"
  by (induction kvs) force+

lemma redaction_callback_accepts:
  "redaction_callback validator placeholder w n =
     (if accepts validator w then (placeholder, Suc n) else (w, n))"
  by (cases validator) (simp_all add: redaction_callback_def accepts_def)

lemma subst_by_cases:
  assumes cb: "\<And>w n. cb w n = (if accepts validator w then (placeholder, Suc n) else (w, n))"
  shows "subst cb segs n =
     (concat (map (render validator placeholder) segs),
      n + length (filter (counted validator) segs))"
proof (induction segs arbitrary: n)
  case Nil
  show ?case by simp
next
  case (Cons seg segs)
  show ?case
  proof (cases seg)
    case (Lit c)
    then show ?thesis by (simp add: Cons.IH)
  next
    case (Match w)
    have step: "cb w n = (if accepts validator w then (placeholder, Suc n) else (w, n))"
      by (rule cb)
    show ?thesis unfolding Match by (simp add: Cons.IH step)
  qed
qed

lemma subst_redaction:
  "subst (redaction_callback validator placeholder) segs n =
     (concat (map (render validator placeholder) segs),
      n + length (filter (counted validator) segs))"
  by (rule subst_by_cases) (rule redaction_callback_accepts)

lemma applyRedaction_eq:
  "applyRedaction pattern placeholder type validator st =
     \<lparr> redactedText = concat (map (render validator placeholder) (scan pattern None (redactedText st))),
       totalRedactions = totalRedactions st + accepted_count validator pattern (redactedText st),
       redactionMap = obj_set (redactionMap st) type
          (or_zero (map_of (redactionMap st) type) + accepted_count validator pattern (redactedText st)) \<rparr>"
  by (simp add: applyRedaction_def replace_cb_def subst_redaction accepted_count_def)

lemma applyRedaction_consistent:
  assumes "totalRedactions st = sum_list (map snd (redactionMap st))"
  shows "totalRedactions (applyRedaction pattern placeholder type validator st) =
         sum_list (map snd (redactionMap (applyRedaction pattern placeholder type validator st)))"
  using assms by (simp add: applyRedaction_eq obj_set_sum)


text \<open>
  C6.  For every input text the total redaction count of the pipe equals the sum of the
  values of its per-type count map.
\<close>

theorem C6_count_consistency:
  "totalRedactions (redact text) = sum_list (map snd (redactionMap (redact text)))"
  unfolding redact_def
  by (intro applyRedaction_consistent) simp

text \<open>
  C8.  A pass with a validator renders every match the validator refuses as the matched
  text itself and counts only the matches it accepts, in its own counter, in the
  per-type map and in the total: a refused match is left unchanged and adds to no count.
\<close>

theorem C8_rejected_match_untouched:
  "applyRedaction pattern placeholder type (Some v) st =
     \<lparr> redactedText =
         concat (map (\<lambda>seg. case seg of Lit c \<Rightarrow> [c]
                                      | Match w \<Rightarrow> if v w then placeholder else w)
                     (scan pattern None (redactedText st))),
       totalRedactions = totalRedactions st +
         length (filter (\<lambda>seg. case seg of Lit c \<Rightarrow> False | Match w \<Rightarrow> v w)
                        (scan pattern None (redactedText st))),
       redactionMap = obj_set (redactionMap st) type
         (or_zero (map_of (redactionMap st) type) +
          length (filter (\<lambda>seg. case seg of Lit c \<Rightarrow> False | Match w \<Rightarrow> v w)
                         (scan pattern None (redactedText st)))) \<rparr>"
proof -
  have r: "render (Some v) placeholder = (\<lambda>seg. case seg of Lit c \<Rightarrow> [c]
                                      | Match w \<Rightarrow> if v w then placeholder else w)"
    by (rule ext) (simp add: accepts_def split: seg.split)
  have c: "counted (Some v) = (\<lambda>seg. case seg of Lit c \<Rightarrow> False | Match w \<Rightarrow> v w)"
    by (rule ext) (simp add: accepts_def split: seg.split)
  show ?thesis
    unfolding applyRedaction_eq accepted_count_def r c ..
qed

theorem C8_witness:
  "applyRedaction CREDIT_CARD ''[REDACTED]'' ''credit_card'' (Some isValidCreditCard)
     \<lparr> redactedText = ''Order number 1234567890123 is different'', totalRedactions = 0,
       redactionMap = [(''credit_card'', 0)] \<rparr> =
     \<lparr> redactedText = ''Order number 1234567890123 is different'', totalRedactions = 0,
       redactionMap = [(''credit_card'', 0)] \<rparr> \<and>
   matches CREDIT_CARD ''Order number 1234567890123 is different'' = [''1234567890123''] \<and>
   \<not> isValidCreditCard ''1234567890123''"
proof -
  have "applyRedaction CREDIT_CARD ''[REDACTED]'' ''credit_card'' (Some isValidCreditCard)
     \<lparr> redactedText = ''Order number 1234567890123 is different'', totalRedactions = 0,
       redactionMap = [(''credit_card'', 0)] \<rparr> =
     \<lparr> redactedText = ''Order number 1234567890123 is different'', totalRedactions = 0,
       redactionMap = [(''credit_card'', 0)] \<rparr>"
    unfolding C8_rejected_match_untouched by code_simp
  moreover have "matches CREDIT_CARD ''Order number 1234567890123 is different'' = [''1234567890123'']"
    by code_simp
  moreover have "\<not> isValidCreditCard ''1234567890123''" by code_simp
  ultimately show ?thesis by blast
qed

text \<open>
  C10.  For every input the per-type map of the pipe has exactly the five entries ipv4,
  email, ssn_us, phone_us and credit_card; the value of each is the number of matches
  its pass accepted in the text the passes before it left, so zero when it matched
  nothing.
\<close>

theorem C10_all_types_present:
  "redactionMap (redact text) =
     (let t1 = pass_text IPV4 None text;
          t2 = pass_text EMAIL None t1;
          t3 = pass_text SSN_US None t2;
          t4 = pass_text PHONE_US None t3
      in [(''ipv4'', accepted_count None IPV4 text),
          (''email'', accepted_count None EMAIL t1),
          (''ssn_us'', accepted_count None SSN_US t2),
          (''phone_us'', accepted_count None PHONE_US t3),
          (''credit_card'', accepted_count (Some isValidCreditCard) CREDIT_CARD t4)])"
  by (simp add: redact_def applyRedaction_eq pass_text_def or_zero_def Let_def)

theorem C10_all_types_present_witness:
  "redactionMap (redact ''no digits here'') =
     [(''ipv4'', 0), (''email'', 0), (''ssn_us'', 0), (''phone_us'', 0), (''credit_card'', 0)]"
proof -
  have "redactionMap (redact ''no digits here'') =
     (let t1 = pass_text IPV4 None ''no digits here'';
          t2 = pass_text EMAIL None t1;
          t3 = pass_text SSN_US None t2;
          t4 = pass_text PHONE_US None t3
      in [(''ipv4'', accepted_count None IPV4 ''no digits here''),
          (''email'', accepted_count None EMAIL t1),
          (''ssn_us'', accepted_count None SSN_US t2),
          (''phone_us'', accepted_count None PHONE_US t3),
          (''credit_card'', accepted_count (Some isValidCreditCard) CREDIT_CARD t4)])"
    by (rule C10_all_types_present)
  also have "\<dots> = [(''ipv4'', 0), (''email'', 0), (''ssn_us'', 0), (''phone_us'', 0),
                    (''credit_card'', 0)]"
    by code_simp
  finally show ?thesis .
qed

subsection \<open>The order of the passes\<close>

text \<open>
  C3 as stated fails: for the text "My SSN is 123-45-6789." the per-type counts are not
  {ssn_us: 1}; the map has an entry for each of the five types, four of them zero.
\<close>

theorem C3_counts_have_five_entries:
  "redactionMap (redact ''My SSN is 123-45-6789.'') =
     [(''ipv4'', 0), (''email'', 0), (''ssn_us'', 1), (''phone_us'', 0), (''credit_card'', 0)] \<and>
   redactionMap (redact ''My SSN is 123-45-6789.'') \<noteq> [(''ssn_us'', 1)]"
  by code_simp

text \<open>
  C3, amended.  For every text the credit_card pass runs on what the phone_us pass has
  left, which ran on what the ssn_us pass has left, and each of the three counts is the
  number of matches its pass accepted there.  So "My SSN is 123-45-6789." has its span
  redacted by the ssn_us pass, with the counts ssn_us 1 and ipv4, email, phone_us and
  credit_card 0, and "Call me at 555-019-2834." by the phone_us pass, with the counts
  phone_us 1 and the four others 0.  The order decides where a span of one type is the
  head of a longer run of digits: of "123-45-6789-012345" the ssn_us pass takes the
  first eleven code units and of "555-019-2834-12345" the phone_us pass the first
  twelve, and the credit_card pass finds nothing in the rest, while on the text as it
  was it would have taken the whole run.
\<close>

theorem C3_priority_ordering:
  "redactedText (redact text) =
     pass_text CREDIT_CARD (Some isValidCreditCard)
       (pass_text PHONE_US None
         (pass_text SSN_US None (pass_text EMAIL None (pass_text IPV4 None text)))) \<and>
   map_of (redactionMap (redact text)) ''ssn_us'' =
     Some (accepted_count None SSN_US (pass_text EMAIL None (pass_text IPV4 None text))) \<and>
   map_of (redactionMap (redact text)) ''phone_us'' =
     Some (accepted_count None PHONE_US
             (pass_text SSN_US None (pass_text EMAIL None (pass_text IPV4 None text)))) \<and>
   map_of (redactionMap (redact text)) ''credit_card'' =
     Some (accepted_count (Some isValidCreditCard) CREDIT_CARD
             (pass_text PHONE_US None
               (pass_text SSN_US None (pass_text EMAIL None (pass_text IPV4 None text))))) \<and>
   redact ''My SSN is 123-45-6789.'' =
     \<lparr> redactedText = ''My SSN is [REDACTED].'', totalRedactions = 1,
       redactionMap = [(''ipv4'', 0), (''email'', 0), (''ssn_us'', 1), (''phone_us'', 0),
                       (''credit_card'', 0)] \<rparr> \<and>
   redact ''Call me at 555-019-2834.'' =
     \<lparr> redactedText = ''Call me at [REDACTED].'', totalRedactions = 1,
       redactionMap = [(''ipv4'', 0), (''email'', 0), (''ssn_us'', 0), (''phone_us'', 1),
                       (''credit_card'', 0)] \<rparr> \<and>
   redact ''123-45-6789-012345'' =
     \<lparr> redactedText = ''[REDACTED]-012345'', totalRedactions = 1,
       redactionMap = [(''ipv4'', 0), (''email'', 0), (''ssn_us'', 1), (''phone_us'', 0),
                       (''credit_card'', 0)] \<rparr> \<and>
   pass_text CREDIT_CARD (Some isValidCreditCard) ''123-45-6789-012345'' = ''[REDACTED]'' \<and>
   redact ''555-019-2834-12345'' =
     \<lparr> redactedText = ''[REDACTED]-12345'', totalRedactions = 1,
       redactionMap = [(''ipv4'', 0), (''email'', 0), (''ssn_us'', 0), (''phone_us'', 1),
                       (''credit_card'', 0)] \<rparr> \<and>
   pass_text CREDIT_CARD (Some isValidCreditCard) ''555-019-2834-12345'' = ''[REDACTED]''"
proof (intro conjI)
  show "redactedText (redact text) =
     pass_text CREDIT_CARD (Some isValidCreditCard)
       (pass_text PHONE_US None
         (pass_text SSN_US None (pass_text EMAIL None (pass_text IPV4 None text))))"
    by (simp add: redact_def applyRedaction_eq pass_text_def)
  show "map_of (redactionMap (redact text)) ''ssn_us'' =
     Some (accepted_count None SSN_US (pass_text EMAIL None (pass_text IPV4 None text)))"
    by (simp add: redact_def applyRedaction_eq pass_text_def or_zero_def)
  show "map_of (redactionMap (redact text)) ''phone_us'' =
     Some (accepted_count None PHONE_US
             (pass_text SSN_US None (pass_text EMAIL None (pass_text IPV4 None text))))"
    by (simp add: redact_def applyRedaction_eq pass_text_def or_zero_def)
  show "map_of (redactionMap (redact text)) ''credit_card'' =
     Some (accepted_count (Some isValidCreditCard) CREDIT_CARD
             (pass_text PHONE_US None
               (pass_text SSN_US None (pass_text EMAIL None (pass_text IPV4 None text)))))"
    by (simp add: redact_def applyRedaction_eq pass_text_def or_zero_def)
  show "redact ''My SSN is 123-45-6789.'' =
     \<lparr> redactedText = ''My SSN is [REDACTED].'', totalRedactions = 1,
       redactionMap = [(''ipv4'', 0), (''email'', 0), (''ssn_us'', 1), (''phone_us'', 0),
                       (''credit_card'', 0)] \<rparr>"
    by code_simp
  show "redact ''Call me at 555-019-2834.'' =
     \<lparr> redactedText = ''Call me at [REDACTED].'', totalRedactions = 1,
       redactionMap = [(''ipv4'', 0), (''email'', 0), (''ssn_us'', 0), (''phone_us'', 1),
                       (''credit_card'', 0)] \<rparr>"
    by code_simp
  show "redact ''123-45-6789-012345'' =
     \<lparr> redactedText = ''[REDACTED]-012345'', totalRedactions = 1,
       redactionMap = [(''ipv4'', 0), (''email'', 0), (''ssn_us'', 1), (''phone_us'', 0),
                       (''credit_card'', 0)] \<rparr>"
    by code_simp
  show "pass_text CREDIT_CARD (Some isValidCreditCard) ''123-45-6789-012345'' = ''[REDACTED]''"
    by code_simp
  show "redact ''555-019-2834-12345'' =
     \<lparr> redactedText = ''[REDACTED]-12345'', totalRedactions = 1,
       redactionMap = [(''ipv4'', 0), (''email'', 0), (''ssn_us'', 0), (''phone_us'', 1),
                       (''credit_card'', 0)] \<rparr>"
    by code_simp
  show "pass_text CREDIT_CARD (Some isValidCreditCard) ''555-019-2834-12345'' = ''[REDACTED]''"
    by code_simp
qed

theorem C3_priority_ordering_witness:
  "pass_text CREDIT_CARD (Some isValidCreditCard)
     (pass_text PHONE_US None
       (pass_text SSN_US None
         (pass_text EMAIL None (pass_text IPV4 None ''Card 4111-1111-1111-111, SSN 123-45-6789'')))) =
     ''Card [REDACTED], SSN [REDACTED]'' \<and>
   redactedText (redact ''Card 4111-1111-1111-111, SSN 123-45-6789'') =
     ''Card [REDACTED], SSN [REDACTED]'' \<and>
   map_of (redactionMap (redact ''Card 4111-1111-1111-111, SSN 123-45-6789'')) ''credit_card'' =
     Some 1"
proof -
  have t: "pass_text CREDIT_CARD (Some isValidCreditCard)
     (pass_text PHONE_US None
       (pass_text SSN_US None
         (pass_text EMAIL None (pass_text IPV4 None ''Card 4111-1111-1111-111, SSN 123-45-6789'')))) =
     ''Card [REDACTED], SSN [REDACTED]''"
    by code_simp
  have c: "accepted_count (Some isValidCreditCard) CREDIT_CARD
     (pass_text PHONE_US None
       (pass_text SSN_US None
         (pass_text EMAIL None (pass_text IPV4 None ''Card 4111-1111-1111-111, SSN 123-45-6789'')))) = 1"
    by code_simp
  from C3_priority_ordering [of "''Card 4111-1111-1111-111, SSN 123-45-6789''"] t c
  show ?thesis by simp
qed

section \<open>The handler\<close>

lemma redact_a:
  "redact ''a'' =
     \<lparr> redactedText = ''a'', totalRedactions = 0,
       redactionMap = [(''ipv4'', 0), (''email'', 0), (''ssn_us'', 0), (''phone_us'', 0),
                       (''credit_card'', 0)] \<rparr>"
  by code_simp

text \<open>
  C2 as stated fails: the answer to the one-letter text "a" is the object below, whose
  metadata has no field original_length (nor redacted_length).
\<close>

theorem C2_no_length_fields:
  "redact_handler (Some (BObject [''text'' \<mapsto> Str ''a''])) =
     Inr (200, JObj [(''success'', JBool True), (''result'', JStr ''a''),
                 (''metadata'',
                  JObj [(''redactions_count'', JNum 0),
                        (''redactions_by_type'',
                         JObj [(''ipv4'', JNum 0), (''email'', JNum 0), (''ssn_us'', JNum 0),
                               (''phone_us'', JNum 0), (''credit_card'', JNum 0)])])]) \<and>
   field (JObj [(''redactions_count'', JNum 0),
                (''redactions_by_type'',
                 JObj [(''ipv4'', JNum 0), (''email'', JNum 0), (''ssn_us'', JNum 0),
                       (''phone_us'', JNum 0), (''credit_card'', JNum 0)])]) ''original_length'' = None"
  by (simp add: redact_handler_def Let_def MAX_INPUT_LENGTH_def redact_a)

text \<open>
  C2, amended.  For every request whose text is a non-empty string of at most
  MAX_INPUT_LENGTH code units the answer has status 200 and consists of the success
  flag, the masked text, and a metadata object of exactly two fields: the total
  redaction count and the per-type counts.
\<close>

theorem C2_success_result:
  assumes "b ''text'' = Some (Str s)" and "s \<noteq> []" and "length s \<le> MAX_INPUT_LENGTH"
  shows "redact_handler (Some (BObject b)) =
     Inr (200, JObj [(''success'', JBool True),
                 (''result'', JStr (redactedText (redact s))),
                 (''metadata'',
                  JObj [(''redactions_count'', JNum (totalRedactions (redact s))),
                        (''redactions_by_type'',
                         JObj (map (\<lambda>(k, v). (k, JNum v)) (redactionMap (redact s))))])])"
  using assms by (simp add: redact_handler_def Let_def)

theorem C2_success_result_witness:
  "[''text'' \<mapsto> Str ''a''] ''text'' = Some (Str ''a'') \<and> ''a'' \<noteq> [] \<and>
   length ''a'' \<le> MAX_INPUT_LENGTH \<and>
   redact_handler (Some (BObject [''text'' \<mapsto> Str ''a''])) =
     Inr (200, JObj [(''success'', JBool True), (''result'', JStr ''a''),
                 (''metadata'',
                  JObj [(''redactions_count'', JNum 0),
                        (''redactions_by_type'',
                         JObj [(''ipv4'', JNum 0), (''email'', JNum 0), (''ssn_us'', JNum 0),
                               (''phone_us'', JNum 0), (''credit_card'', JNum 0)])])])"
  using C2_success_result [of "[''text'' \<mapsto> Str ''a'']" "''a''"]
  by (simp add: MAX_INPUT_LENGTH_def redact_a)

subsection \<open>The answers at the boundary\<close>

text \<open>
  A body that is not null and has no text field, or the empty string as text, is
  answered with status 400 and the code INVALID_INPUT.
\<close>

lemma invalid_input_answer:
  assumes "destructure_text b = Inr Undefined \<or> destructure_text b = Inr (Str [])"
  shows "redact_handler (Some b) =
     Inr (400, JObj [(''success'', JBool False),
                     (''error'', JStr (''Missing or invalid '' @ [CHR 0x27] @ ''text''
                         @ [CHR 0x27] @ ''. Expected a non-empty string.'')),
                     (''code'', JStr ''INVALID_INPUT'')])"
  using assms by (auto simp add: redact_handler_def)

text \<open>
  A text of exactly MAX_INPUT_LENGTH (1,048,576) code units is processed; a text of one
  code unit more is answered with status 413, the code INPUT_TOO_LARGE, max_length
  1048576 and received_length 1048577.
\<close>

lemma length_limit_answers:
  assumes "b ''text'' = Some (Str s)"
  shows "length s = MAX_INPUT_LENGTH \<longrightarrow>
           redact_handler (Some (BObject b)) =
             Inr (200, JObj [(''success'', JBool True),
                   (''result'', JStr (redactedText (redact s))),
                   (''metadata'',
                    JObj [(''redactions_count'', JNum (totalRedactions (redact s))),
                          (''redactions_by_type'',
                           JObj (map (\<lambda>(k, v). (k, JNum v)) (redactionMap (redact s))))])])"
    and "length s = MAX_INPUT_LENGTH + 1 \<longrightarrow>
           redact_handler (Some (BObject b)) =
             Inr (413, JObj [(''success'', JBool False),
                   (''error'', JStr ''Input exceeds maximum length of 1048576 characters.''),
                   (''code'', JStr ''INPUT_TOO_LARGE''),
                   (''max_length'', JNum 1048576),
                   (''received_length'', JNum 1048577)])"
proof -
  show "length s = MAX_INPUT_LENGTH \<longrightarrow>
           redact_handler (Some (BObject b)) =
             Inr (200, JObj [(''success'', JBool True),
                   (''result'', JStr (redactedText (redact s))),
                   (''metadata'',
                    JObj [(''redactions_count'', JNum (totalRedactions (redact s))),
                          (''redactions_by_type'',
                           JObj (map (\<lambda>(k, v). (k, JNum v)) (redactionMap (redact s))))])])"
  proof
    assume a: "length s = MAX_INPUT_LENGTH"
    then have "s \<noteq> []" by (auto simp add: MAX_INPUT_LENGTH_def)
    with a assms show "redact_handler (Some (BObject b)) =
             Inr (200, JObj [(''success'', JBool True),
                   (''result'', JStr (redactedText (redact s))),
                   (''metadata'',
                    JObj [(''redactions_count'', JNum (totalRedactions (redact s))),
                          (''redactions_by_type'',
                           JObj (map (\<lambda>(k, v). (k, JNum v)) (redactionMap (redact s))))])])"
      by (simp add: redact_handler_def Let_def)
  qed
  show "length s = MAX_INPUT_LENGTH + 1 \<longrightarrow>
           redact_handler (Some (BObject b)) =
             Inr (413, JObj [(''success'', JBool False),
                   (''error'', JStr ''Input exceeds maximum length of 1048576 characters.''),
                   (''code'', JStr ''INPUT_TOO_LARGE''),
                   (''max_length'', JNum 1048576),
                   (''received_length'', JNum 1048577)])"
  proof
    assume a: "length s = MAX_INPUT_LENGTH + 1"
    then have "s \<noteq> []" by auto
    with a assms show "redact_handler (Some (BObject b)) =
             Inr (413, JObj [(''success'', JBool False),
                   (''error'', JStr ''Input exceeds maximum length of 1048576 characters.''),
                   (''code'', JStr ''INPUT_TOO_LARGE''),
                   (''max_length'', JNum 1048576),
                   (''received_length'', JNum 1048577)])"
      by (simp add: redact_handler_def Let_def MAX_INPUT_LENGTH_def)
  qed
qed

text \<open>
  C9.  The claim has a request without a text field answered with INVALID_INPUT.  The
  handler does so for the body {}, but for the body null, which parses, the
  destructuring throws a TypeError and the handler gives no answer of its own.
\<close>

theorem C9_null_body_throws:
  "redact_handler (Some BNull) = Inl TypeError \<and>
   redact_handler (Some (BObject Map.empty)) =
     Inr (400, JObj [(''success'', JBool False),
                     (''error'', JStr (''Missing or invalid '' @ [CHR 0x27] @ ''text''
                         @ [CHR 0x27] @ ''. Expected a non-empty string.'')),
                     (''code'', JStr ''INVALID_INPUT'')])"
  by (simp add: redact_handler_def)

theorem C9_null_body_throws_witness:
  "isl (redact_handler (Some BNull)) \<and>
   \<not> isl (redact_handler (Some (BObject Map.empty))) \<and>
   redact_handler (Some BNull) \<noteq> redact_handler (Some (BObject Map.empty))"
  using C9_null_body_throws by simp

section \<open>What the patterns consume\<close>

subsection \<open>Membership in the results of the combinators\<close>

lemma in_m_char:
  "y \<in> set (m_char P x) \<longleftrightarrow> (\<exists>c cs. snd x = c # cs \<and> P c \<and> y = (Some c, cs))"
  by (cases x; cases "snd x") auto

lemma in_m_lit:
  "y \<in> set (m_lit a x) \<longleftrightarrow> (\<exists>cs. snd x = a # cs \<and> y = (Some a, cs))"
  unfolding m_lit_def in_m_char by auto

lemma in_m_eps: "y \<in> set (m_eps x) \<longleftrightarrow> y = x"
  by (simp add: m_eps_def)

lemma in_m_seq: "y \<in> set (m_seq m1 m2 x) \<longleftrightarrow> (\<exists>z \<in> set (m1 x). y \<in> set (m2 z))"
  by (auto simp add: m_seq_def)

lemma in_m_alt: "y \<in> set (m_alt m1 m2 x) \<longleftrightarrow> y \<in> set (m1 x) \<or> y \<in> set (m2 x)"
  by (simp add: m_alt_def)

lemma in_m_opt: "y \<in> set (m_opt m x) \<longleftrightarrow> y \<in> set (m x) \<or> y = x"
  by (simp add: m_opt_def in_m_alt in_m_eps)

lemma in_m_wordb: "y \<in> set (m_wordb x) \<longleftrightarrow> y = x \<and> word_before x \<noteq> word_after x"
  by (cases "word_before x = word_after x") (auto simp add: m_wordb_def)

lemma m_eps_fun: "m_eps = (\<lambda>x. [x])"
  by (rule ext) (simp add: m_eps_def)

lemma m_seq_eps [simp]: "m_seq m m_eps = m"
  by (rule ext) (simp add: m_seq_def m_eps_fun)

lemma m_repeat_zero: "m_repeat n 0 m = m_eps"
  by (rule ext) (simp add: m_eps_def)

lemma m_repeat_exact: "m_repeat (Suc n) (Suc k) m = m_seq m (m_repeat n k m)"
  by (rule ext) (simp add: m_seq_def)

lemma m_repeat_2_2: "m_repeat 2 2 m = m_seq m m"
  by (simp add: numeral_2_eq_2 m_repeat_exact m_repeat_zero)

lemma m_repeat_3_3: "m_repeat 3 3 m = m_seq m (m_seq m m)"
  by (simp add: numeral_3_eq_3 m_repeat_exact m_repeat_zero)

lemma m_repeat_4_4: "m_repeat 4 4 m = m_seq m (m_seq m (m_seq m m))"
  by (simp add: eval_nat_numeral m_repeat_exact m_repeat_zero)

subsection \<open>Digits\<close>

lemma in_range_0_5: "in_range CHR ''0'' CHR ''5'' c \<Longrightarrow> is_digit c \<and> digit_val c \<le> 5"
  unfolding in_range_def is_digit_def digit_val_def less_eq_char_def by simp linarith

lemma in_range_0_4: "in_range CHR ''0'' CHR ''4'' c \<Longrightarrow> is_digit c \<and> digit_val c \<le> 4"
  unfolding in_range_def is_digit_def digit_val_def less_eq_char_def by simp linarith

lemma is_digit_val: "is_digit c \<Longrightarrow> digit_val c \<le> 9"
  unfolding in_range_def is_digit_def digit_val_def less_eq_char_def by simp linarith

lemma is_digit_not_dot: "is_digit c \<Longrightarrow> c \<noteq> CHR ''.''"
  by (auto simp add: in_range_def is_digit_def less_eq_char_def)

lemma is_digit_0_1: "is_digit CHR ''0''" "is_digit CHR ''1''" "is_digit CHR ''2''" "is_digit CHR ''5''"
  by (simp_all add: in_range_def is_digit_def less_eq_char_def)

lemma digit_val_lits: "digit_val CHR ''0'' = 0" "digit_val CHR ''1'' = 1" "digit_val CHR ''2'' = 2"
  "digit_val CHR ''5'' = 5"
  by (simp_all add: digit_val_def)

subsection \<open>What an octet consumes\<close>

lemma octet_cases:
  assumes "y \<in> set (octet x)"
  shows "(\<exists>c r. snd x = CHR ''2'' # CHR ''5'' # c # r \<and> in_range CHR ''0'' CHR ''5'' c \<and> snd y = r)
       \<or> (\<exists>b c r. snd x = CHR ''2'' # b # c # r \<and> in_range CHR ''0'' CHR ''4'' b \<and> is_digit c \<and> snd y = r)
       \<or> (\<exists>a b c r. snd x = a # b # c # r \<and> (a = CHR ''0'' \<or> a = CHR ''1'') \<and> is_digit b \<and> is_digit c \<and> snd y = r)
       \<or> (\<exists>a b r. snd x = a # b # r \<and> is_digit a \<and> is_digit b \<and> snd y = r)
       \<or> (\<exists>a r. snd x = a # r \<and> is_digit a \<and> snd y = r)"
  using assms
  by (auto simp add: octet_def in_m_alt in_m_seq in_m_opt in_m_lit in_m_char is_digit_0_1) blast+

lemma octet_sound:
  assumes "y \<in> set (octet x)"
  shows "\<exists>w. snd x = w @ snd y \<and> octet_in_range w \<and> list_all is_digit w"
proof -
  from octet_cases [OF assms] consider
      (a) c r where "snd x = CHR ''2'' # CHR ''5'' # c # r" "in_range CHR ''0'' CHR ''5'' c" "snd y = r"
    | (b) b c r where "snd x = CHR ''2'' # b # c # r" "in_range CHR ''0'' CHR ''4'' b" "is_digit c" "snd y = r"
    | (c) a b c r where "snd x = a # b # c # r" "a = CHR ''0'' \<or> a = CHR ''1''" "is_digit b" "is_digit c" "snd y = r"
    | (d) a b r where "snd x = a # b # r" "is_digit a" "is_digit b" "snd y = r"
    | (e) a r where "snd x = a # r" "is_digit a" "snd y = r"
    by blast
  then show ?thesis
  proof cases
    case a
    from a(2) have "is_digit c" "digit_val c \<le> 5" using in_range_0_5 by auto
    then have "octet_in_range [CHR ''2'', CHR ''5'', c] \<and> list_all is_digit [CHR ''2'', CHR ''5'', c]"
      by (simp add: octet_in_range_def dec_value_def is_digit_0_1 digit_val_lits)
    with a show ?thesis by (intro exI [of _ "[CHR ''2'', CHR ''5'', c]"]) simp
  next
    case b
    from b(2) have "is_digit b" "digit_val b \<le> 4" using in_range_0_4 by auto
    moreover from b(3) have "digit_val c \<le> 9" by (rule is_digit_val)
    ultimately have "octet_in_range [CHR ''2'', b, c] \<and> list_all is_digit [CHR ''2'', b, c]"
      using b(3) by (simp add: octet_in_range_def dec_value_def is_digit_0_1 digit_val_lits)
    with b show ?thesis by (intro exI [of _ "[CHR ''2'', b, c]"]) simp
  next
    case c
    from c(2) have "is_digit a" "digit_val a \<le> 1" by (auto simp add: is_digit_0_1 digit_val_lits)
    moreover from c(3,4) have "digit_val b \<le> 9" "digit_val c \<le> 9" by (auto intro: is_digit_val)
    ultimately have "octet_in_range [a, b, c] \<and> list_all is_digit [a, b, c]"
      using c(3,4) by (simp add: octet_in_range_def dec_value_def)
    with c show ?thesis by (intro exI [of _ "[a, b, c]"]) simp
  next
    case d
    from d(2,3) have "digit_val a \<le> 9" "digit_val b \<le> 9" by (auto intro: is_digit_val)
    then have "octet_in_range [a, b] \<and> list_all is_digit [a, b]"
      using d(2,3) by (simp add: octet_in_range_def dec_value_def)
    with d show ?thesis by (intro exI [of _ "[a, b]"]) simp
  next
    case e
    from e(2) have "digit_val a \<le> 9" by (rule is_digit_val)
    then have "octet_in_range [a] \<and> list_all is_digit [a]"
      using e(2) by (simp add: octet_in_range_def dec_value_def)
    with e show ?thesis by (intro exI [of _ "[a]"]) simp
  qed
qed

subsection \<open>Every match of a scan is a first result of the pattern\<close>

lemma scan_Match:
  "Match w \<in> set (scan m p s) \<Longrightarrow>
     \<exists>p' s' y ys. m (p', s') = y # ys \<and> w = take (length s' - length (snd y)) s'"
proof (induction m p s rule: scan.induct)
  case (1 m p)
  then obtain y ys where "m (p, []) = y # ys" and "w = []"
    by (cases "m (p, [])") auto
  then show ?case
    by (intro exI [of _ p] exI [of _ "[]"] exI [of _ y] exI [of _ ys]) simp
next
  case (2 m p c cs)
  show ?case
  proof (cases "m (p, c # cs)")
    case Nil
    with 2 show ?thesis by auto
  next
    case (Cons y ys)
    show ?thesis
    proof (cases "length (snd y) < Suc (length cs)")
      case True
      from "2.prems" Cons True
      consider "w = take (Suc (length cs) - length (snd y)) (c # cs)"
        | "Match w \<in> set (scan m (Some (last (take (Suc (length cs) - length (snd y)) (c # cs))))
                            (drop (Suc (length cs) - length (snd y)) (c # cs)))"
        by auto
      then show ?thesis
      proof cases
        case 1
        with Cons show ?thesis
          by (intro exI [of _ p] exI [of _ "c # cs"] exI [of _ y] exI [of _ ys]) simp
      next
        case 2
        with "2.IH"(2) [OF Cons True] show ?thesis by blast
      qed
    next
      case False
      from "2.prems" Cons False
      consider "w = []" | "Match w \<in> set (scan m (Some c) cs)" by auto
      then show ?thesis
      proof cases
        case 1
        with Cons False show ?thesis
          by (intro exI [of _ p] exI [of _ "c # cs"] exI [of _ y] exI [of _ ys]) simp
      next
        case 2
        with "2.IH"(3) [OF Cons False] show ?thesis by blast
      qed
    qed
  qed
qed

lemma matches_first_result:
  assumes "w \<in> set (matches m s)"
  shows "\<exists>p' s' y ys. m (p', s') = y # ys \<and> w = take (length s' - length (snd y)) s'"
proof -
  from assms have "Match w \<in> set (scan m None s)"
    unfolding matches_def List.map_filter_def
    by (auto elim: match_text.elims)
  then show ?thesis by (rule scan_Match)
qed

subsection \<open>Splitting a dotted quad\<close>

lemma split_dots_nonempty: "split_dots s \<noteq> []"
  by (induction s) (auto split: list.splits)

lemma split_dots_nodot: "CHR ''.'' \<notin> set a \<Longrightarrow> split_dots a = [a]"
  by (induction a) (auto split: list.splits)

lemma split_dots_append:
  "CHR ''.'' \<notin> set a \<Longrightarrow> split_dots (a @ CHR ''.'' # r) = a # split_dots r"
  by (induction a) (auto split: list.splits simp add: split_dots_nonempty)

lemma digits_nodot: "list_all is_digit w \<Longrightarrow> CHR ''.'' \<notin> set w"
  by (auto simp add: list_all_iff dest: is_digit_not_dot)

subsection \<open>What the ipv4 pattern consumes\<close>

lemma octet_dot_sound:
  assumes "y \<in> set (m_seq octet (m_lit CHR ''.'') x)"
  shows "\<exists>w. snd x = w @ CHR ''.'' # snd y \<and> octet_in_range w \<and> list_all is_digit w"
proof -
  from assms obtain z where z: "z \<in> set (octet x)" and y: "y \<in> set (m_lit CHR ''.'' z)"
    unfolding in_m_seq by blast
  from octet_sound [OF z] obtain w where
    w: "snd x = w @ snd z" "octet_in_range w" "list_all is_digit w" by blast
  from y have "snd z = CHR ''.'' # snd y" unfolding in_m_lit by auto
  with w show ?thesis by auto
qed

lemma bex_m_wordb:
  "(\<exists>z \<in> set (m_wordb x). P z) \<longleftrightarrow> (word_before x \<noteq> word_after x \<and> P x)"
  by (cases "word_before x = word_after x") (simp_all add: m_wordb_def)

lemma IPV4_sound:
  assumes "y \<in> set (IPV4 x)"
  shows "\<exists>w. snd x = w @ snd y \<and> dotted_quad_in_range w"
proof -
  let ?od = "m_seq octet (m_lit CHR ''.'')"
  from assms have "\<exists>z0 \<in> set (m_wordb x). \<exists>z3 \<in> set (m_repeat 3 3 ?od z0).
      \<exists>z4 \<in> set (octet z3). y \<in> set (m_wordb z4)"
    unfolding IPV4_def m_seqs.simps in_m_seq by blast
  then have "\<exists>z3 \<in> set (m_repeat 3 3 ?od x). \<exists>z4 \<in> set (octet z3). y \<in> set (m_wordb z4)"
    unfolding bex_m_wordb by (rule conjunct2)
  then obtain z3 z4 where
    r: "z3 \<in> set (m_repeat 3 3 ?od x)" and
    s4: "z4 \<in> set (octet z3)" and y4: "y \<in> set (m_wordb z4)"
    by blast
  from y4 have y: "y = z4" unfolding in_m_wordb by (rule conjunct1)
  from r have "\<exists>z1 \<in> set (?od x). \<exists>z2 \<in> set (?od z1). z3 \<in> set (?od z2)"
    unfolding m_repeat_3_3 in_m_seq [of z3 ?od "m_seq ?od ?od"] in_m_seq [of z3 ?od ?od] .
  then obtain z1 z2 where
    s1: "z1 \<in> set (?od x)" and s2: "z2 \<in> set (?od z1)" and s3: "z3 \<in> set (?od z2)"
    by blast
  from octet_dot_sound [OF s1] obtain a where
    a: "snd x = a @ CHR ''.'' # snd z1" "octet_in_range a" "list_all is_digit a" by blast
  from octet_dot_sound [OF s2] obtain b where
    b: "snd z1 = b @ CHR ''.'' # snd z2" "octet_in_range b" "list_all is_digit b" by blast
  from octet_dot_sound [OF s3] obtain c where
    c: "snd z2 = c @ CHR ''.'' # snd z3" "octet_in_range c" "list_all is_digit c" by blast
  from octet_sound [OF s4] obtain d where
    d: "snd z3 = d @ snd z4" "octet_in_range d" "list_all is_digit d" by blast
  let ?w = "a @ CHR ''.'' # b @ CHR ''.'' # c @ CHR ''.'' # d"
  have "split_dots ?w = [a, b, c, d]"
    using a(3) b(3) c(3) d(3) by (simp add: split_dots_append split_dots_nodot digits_nodot)
  then have "dotted_quad_in_range ?w"
    using a(2) b(2) c(2) d(2) by (simp add: dotted_quad_in_range_def)
  moreover have "snd x = ?w @ snd y" using a(1) b(1) c(1) d(1) y by simp
  ultimately show ?thesis by blast
qed


lemma matches_example: "matches IPV4 ''Server at 192.168.1.1 is down'' = [''192.168.1.1'']"
  by code_simp


text \<open>
  C4 as stated fails on components written with leading zeros: the ipv4 pattern matches
  the whole of 01.02.03.04.
\<close>

theorem C4_leading_zeros_matched:
  "matches IPV4 ''01.02.03.04'' = [''01.02.03.04'']"
  by code_simp

text \<open>
  C4, amended.  For every text, every match of the ipv4 pattern is a dotted quad of four
  components, each of one to three digits and of a decimal value in 0 to 255; so no
  match has a component above 255.  Leading zeros are allowed.
\<close>

theorem C4_ipv4_matches_in_range:
  assumes "w \<in> set (matches IPV4 text)"
  shows "dotted_quad_in_range w"
proof -
  from matches_first_result [OF assms] obtain p' s' y ys where
    r: "IPV4 (p', s') = y # ys" and w: "w = take (length s' - length (snd y)) s'" by blast
  from r have "y \<in> set (IPV4 (p', s'))" by simp
  from IPV4_sound [OF this] obtain v where v: "s' = v @ snd y" "dotted_quad_in_range v" by auto
  from v(1) have "length s' - length (snd y) = length v" by simp
  with w have "w = take (length v) (v @ snd y)" using v(1) by simp
  then have "w = v" by simp
  with v(2) show ?thesis by simp
qed

theorem C4_ipv4_matches_in_range_witness:
  "''192.168.1.1'' \<in> set (matches IPV4 ''Server at 192.168.1.1 is down'') \<and>
   dotted_quad_in_range ''192.168.1.1''"
  using C4_ipv4_matches_in_range [of "''192.168.1.1''" "''Server at 192.168.1.1 is down''"]
  by (simp add: matches_example)

section \<open>Stability of the pipe\<close>

subsection \<open>Well-formed matchers\<close>

lemma wf_matcherI:
  assumes "\<And>x y. y \<in> set (m x) \<Longrightarrow>
     \<exists>w. snd x = w @ snd y \<and> list_all not_bracket w \<and>
         fst y = (if w = [] then fst x else Some (last w))"
  shows "wf_matcher m"
  using assms unfolding wf_matcher_def by blast

lemma wf_matcherD:
  assumes "wf_matcher m" "y \<in> set (m x)"
  obtains w where "snd x = w @ snd y" "list_all not_bracket w"
    "fst y = (if w = [] then fst x else Some (last w))"
  using assms unfolding wf_matcher_def by blast

lemma wf_char [wf_intros]:
  assumes "\<And>c. P c \<Longrightarrow> not_bracket c"
  shows "wf_matcher (m_char P)"
proof (rule wf_matcherI)
  fix x y assume "y \<in> set (m_char P x)"
  then obtain c cs where c: "snd x = c # cs" "P c" "y = (Some c, cs)"
    by (cases x; cases "snd x") (auto split: if_splits)
  then have "snd x = [c] @ snd y \<and> list_all not_bracket [c] \<and>
      fst y = (if [c] = [] then fst x else Some (last [c]))"
    using assms by simp
  then show "\<exists>w. snd x = w @ snd y \<and> list_all not_bracket w \<and>
      fst y = (if w = [] then fst x else Some (last w))" by blast
qed

lemma wf_lit [wf_intros]: "not_bracket a \<Longrightarrow> wf_matcher (m_lit a)"
  unfolding m_lit_def by (rule wf_char) simp

lemma wf_same:
  assumes "\<And>x y. y \<in> set (m x) \<Longrightarrow> y = x"
  shows "wf_matcher m"
proof (rule wf_matcherI)
  fix x y assume "y \<in> set (m x)"
  then have "y = x" by (rule assms)
  then have "snd x = [] @ snd y \<and> list_all not_bracket [] \<and>
      fst y = (if ([]::string) = [] then fst x else Some (last []))" by simp
  then show "\<exists>w. snd x = w @ snd y \<and> list_all not_bracket w \<and>
      fst y = (if w = [] then fst x else Some (last w))" by blast
qed

lemma wf_eps [wf_intros]: "wf_matcher m_eps"
  by (rule wf_same) (simp add: m_eps_def)

lemma wf_wordb [wf_intros]: "wf_matcher m_wordb"
  by (rule wf_same) (simp add: m_wordb_def split: if_splits)

lemma wf_not [wf_intros]: "wf_matcher (m_not k)"
  by (rule wf_same) (simp add: m_not_def split: if_splits)

lemma wf_compose:
  assumes xz: "snd x = w1 @ snd z" "list_all not_bracket w1"
      "fst z = (if w1 = [] then fst x else Some (last w1))"
    and zy: "snd z = w2 @ snd y" "list_all not_bracket w2"
      "fst y = (if w2 = [] then fst z else Some (last w2))"
  shows "\<exists>w. snd x = w @ snd y \<and> list_all not_bracket w \<and>
      fst y = (if w = [] then fst x else Some (last w))"
proof -
  have "snd x = (w1 @ w2) @ snd y" using xz(1) zy(1) by simp
  moreover have "list_all not_bracket (w1 @ w2)" using xz(2) zy(2) by simp
  moreover have "fst y = (if w1 @ w2 = [] then fst x else Some (last (w1 @ w2)))"
    using xz(3) zy(3) by simp
  ultimately show ?thesis by blast
qed

lemma wf_seq [wf_intros]:
  assumes "wf_matcher m1" "wf_matcher m2"
  shows "wf_matcher (m_seq m1 m2)"
proof (rule wf_matcherI)
  fix x y assume "y \<in> set (m_seq m1 m2 x)"
  then obtain z where z: "z \<in> set (m1 x)" and y: "y \<in> set (m2 z)"
    by (auto simp add: m_seq_def)
  from wf_matcherD [OF assms(1) z] obtain w1 where
    1: "snd x = w1 @ snd z" "list_all not_bracket w1"
       "fst z = (if w1 = [] then fst x else Some (last w1))" by blast
  from wf_matcherD [OF assms(2) y] obtain w2 where
    2: "snd z = w2 @ snd y" "list_all not_bracket w2"
       "fst y = (if w2 = [] then fst z else Some (last w2))" by blast
  from 1 2 show "\<exists>w. snd x = w @ snd y \<and> list_all not_bracket w \<and>
      fst y = (if w = [] then fst x else Some (last w))" by (rule wf_compose)
qed

lemma wf_progress [wf_intros]:
  assumes "wf_matcher m1" "wf_matcher m2"
  shows "wf_matcher (m_progress m1 m2)"
proof (rule wf_matcherI)
  fix x y assume "y \<in> set (m_progress m1 m2 x)"
  then obtain z where z: "z \<in> set (m1 x)" and y: "y \<in> set (m2 z)"
    by (auto simp add: m_progress_def split: if_splits)
  from wf_matcherD [OF assms(1) z] obtain w1 where
    1: "snd x = w1 @ snd z" "list_all not_bracket w1"
       "fst z = (if w1 = [] then fst x else Some (last w1))" by blast
  from wf_matcherD [OF assms(2) y] obtain w2 where
    2: "snd z = w2 @ snd y" "list_all not_bracket w2"
       "fst y = (if w2 = [] then fst z else Some (last w2))" by blast
  from 1 2 show "\<exists>w. snd x = w @ snd y \<and> list_all not_bracket w \<and>
      fst y = (if w = [] then fst x else Some (last w))" by (rule wf_compose)
qed

lemma wf_alt [wf_intros]:
  assumes "wf_matcher m1" "wf_matcher m2"
  shows "wf_matcher (m_alt m1 m2)"
  using assms unfolding wf_matcher_def m_alt_def by auto

lemma wf_opt [wf_intros]: "wf_matcher m \<Longrightarrow> wf_matcher (m_opt m)"
  unfolding m_opt_def by (intro wf_alt wf_eps)

text \<open>The repetitions, by the combinators above.\<close>

lemma m_repeat_0: "m_repeat mn 0 m = m_eps"
  by (rule ext) (simp add: m_eps_def)

lemma m_repeat_Suc_0: "m_repeat 0 (Suc mx) m = m_alt (m_progress m (m_repeat 0 mx m)) m_eps"
  by (rule ext) (simp add: m_alt_def m_progress_def m_eps_def)

lemma m_repeat_Suc_Suc: "m_repeat (Suc n) (Suc mx) m = m_seq m (m_repeat n mx m)"
  by (rule ext) (simp add: m_seq_def)

lemma m_lazy_fuel_0: "m_lazy_fuel 0 m = m_eps"
  by (rule ext) (simp add: m_eps_def)

lemma m_lazy_fuel_Suc: "m_lazy_fuel (Suc k) m = m_alt m_eps (m_progress m (m_lazy_fuel k m))"
  by (rule ext) (simp add: m_alt_def m_progress_def m_eps_def)

lemma wf_repeat [wf_intros]:
  assumes "wf_matcher m"
  shows "wf_matcher (m_repeat mn mx m)"
proof (induction mx arbitrary: mn)
  case 0
  show ?case unfolding m_repeat_0 by (rule wf_eps)
next
  case (Suc mx)
  show ?case
  proof (cases mn)
    case 0
    show ?thesis unfolding 0 m_repeat_Suc_0 by (intro wf_alt wf_progress wf_eps assms Suc)
  next
    case (Suc n)
    show ?thesis unfolding Suc m_repeat_Suc_Suc by (intro wf_seq assms Suc.IH)
  qed
qed

lemma wf_lazy_fuel:
  assumes "wf_matcher m"
  shows "wf_matcher (m_lazy_fuel k m)"
proof (induction k)
  case 0
  show ?case unfolding m_lazy_fuel_0 by (rule wf_eps)
next
  case (Suc k)
  show ?case unfolding m_lazy_fuel_Suc by (intro wf_alt wf_progress wf_eps assms Suc)
qed

lemma wf_star [wf_intros]:
  assumes "wf_matcher m"
  shows "wf_matcher (m_star m)"
  using wf_repeat [OF assms] unfolding wf_matcher_def m_star_def by blast

lemma wf_lazy_star [wf_intros]:
  assumes "wf_matcher m"
  shows "wf_matcher (m_lazy_star m)"
  using wf_lazy_fuel [OF assms] unfolding wf_matcher_def m_lazy_star_def by blast

lemma wf_repeat_from [wf_intros]:
  assumes "wf_matcher m"
  shows "wf_matcher (m_repeat_from n m)"
  by (induction n) (simp_all add: wf_star wf_seq assms)

lemma wf_plus [wf_intros]: "wf_matcher m \<Longrightarrow> wf_matcher (m_plus m)"
  unfolding m_plus_def by (rule wf_repeat_from)

lemma wf_str [wf_intros]: "list_all not_bracket w \<Longrightarrow> wf_matcher (m_str w)"
  by (induction w) (simp_all add: wf_eps wf_seq wf_lit)

subsection \<open>Lengths\<close>

lemma minlen_wf: "wf_matcher m \<Longrightarrow> minlen 0 m"
  unfolding wf_matcher_def minlen_def by fastforce

lemma minlen_mono: "minlen n m \<Longrightarrow> k \<le> n \<Longrightarrow> minlen k m"
  unfolding minlen_def by fastforce

lemma minlen_char: "minlen 1 (m_char P)"
  unfolding minlen_def
proof (intro allI impI)
  fix x y assume "y \<in> set (m_char P x)"
  then show "length (snd y) + 1 \<le> length (snd x)"
    by (cases x; cases "snd x") (auto split: if_splits)
qed

lemma minlen_lit: "minlen 1 (m_lit a)"
  unfolding m_lit_def by (rule minlen_char)

lemma minlen_seq:
  assumes "minlen a m1" "minlen b m2"
  shows "minlen (a + b) (m_seq m1 m2)"
  unfolding minlen_def
proof (intro allI impI)
  fix x y assume "y \<in> set (m_seq m1 m2 x)"
  then obtain z where z: "z \<in> set (m1 x)" and y: "y \<in> set (m2 z)"
    by (auto simp add: m_seq_def)
  from assms(1) z have "length (snd z) + a \<le> length (snd x)" unfolding minlen_def by blast
  moreover from assms(2) y have "length (snd y) + b \<le> length (snd z)" unfolding minlen_def by blast
  ultimately show "length (snd y) + (a + b) \<le> length (snd x)" by linarith
qed

lemma minlen_seq_left: "minlen n m1 \<Longrightarrow> wf_matcher m2 \<Longrightarrow> minlen n (m_seq m1 m2)"
  using minlen_seq [of n m1 0 m2] by (simp add: minlen_wf)

lemma minlen_seq_right: "wf_matcher m1 \<Longrightarrow> minlen n m2 \<Longrightarrow> minlen n (m_seq m1 m2)"
  using minlen_seq [of 0 m1 n m2] by (simp add: minlen_wf)

lemma minlen_alt: "minlen n m1 \<Longrightarrow> minlen n m2 \<Longrightarrow> minlen n (m_alt m1 m2)"
  unfolding minlen_def m_alt_def by auto

lemma minlen_repeat_2: "minlen 2 (m_repeat 2 2 (m_char P))"
  using minlen_seq [OF minlen_char minlen_char, of P P]
  by (simp add: numeral_2_eq_2 m_repeat_Suc_Suc m_repeat_0)

lemma minlen_repeat_3: "minlen 3 (m_repeat 3 3 (m_char P))"
  using minlen_seq [OF minlen_char minlen_seq [OF minlen_char minlen_char], of P P P]
  by (simp add: numeral_3_eq_3 m_repeat_Suc_Suc m_repeat_0)

lemma minlen_repeat_4: "minlen 4 (m_repeat 4 4 (m_char P))"
  using minlen_seq [OF minlen_char minlen_seq [OF minlen_char minlen_seq [OF minlen_char minlen_char]],
      of P P P P]
  by (simp add: eval_nat_numeral m_repeat_Suc_Suc m_repeat_0)

lemma maxlen_char: "maxlen 1 (m_char P)"
  unfolding maxlen_def
proof (intro allI impI)
  fix x y assume "y \<in> set (m_char P x)"
  then show "length (snd x) \<le> length (snd y) + 1"
    by (cases x; cases "snd x") (auto split: if_splits)
qed

lemma maxlen_lit: "maxlen 1 (m_lit a)"
  unfolding m_lit_def by (rule maxlen_char)

lemma maxlen_eps: "maxlen 0 m_eps"
  unfolding maxlen_def m_eps_def by simp

lemma maxlen_seq:
  assumes "maxlen a m1" "maxlen b m2"
  shows "maxlen (a + b) (m_seq m1 m2)"
  unfolding maxlen_def
proof (intro allI impI)
  fix x y assume "y \<in> set (m_seq m1 m2 x)"
  then obtain z where z: "z \<in> set (m1 x)" and y: "y \<in> set (m2 z)"
    by (auto simp add: m_seq_def)
  from assms(1) z have "length (snd x) \<le> length (snd z) + a" unfolding maxlen_def by blast
  moreover from assms(2) y have "length (snd z) \<le> length (snd y) + b" unfolding maxlen_def by blast
  ultimately show "length (snd x) \<le> length (snd y) + (a + b)" by linarith
qed

lemma maxlen_mono: "maxlen n m \<Longrightarrow> n \<le> k \<Longrightarrow> maxlen k m"
  unfolding maxlen_def by fastforce

lemma maxlen_alt: "maxlen n m1 \<Longrightarrow> maxlen n m2 \<Longrightarrow> maxlen n (m_alt m1 m2)"
  unfolding maxlen_def m_alt_def by auto

lemma maxlen_str: "maxlen (length w) (m_str w)"
proof (induction w)
  case Nil
  show ?case by (simp add: maxlen_eps)
next
  case (Cons a w)
  from maxlen_seq [OF maxlen_lit Cons] show ?case by simp
qed

subsection \<open>Word boundaries at the two ends\<close>

lemma starts_b_wordb_seq: "starts_b (m_seq m_wordb m)"
  unfolding starts_b_def m_seq_def m_wordb_def boundary_def by auto

lemma ends_b_wordb: "ends_b m_wordb"
  unfolding ends_b_def m_wordb_def boundary_def by (auto split: if_splits)

lemma ends_b_seq: "ends_b m2 \<Longrightarrow> ends_b (m_seq m1 m2)"
  unfolding ends_b_def m_seq_def by auto

subsection \<open>No class of the patterns has a bracket\<close>

lemma not_bracket_digit: "is_digit c \<Longrightarrow> not_bracket c"
  by (auto simp add: not_bracket_def is_digit_def in_range_def less_eq_char_def)

lemma not_bracket_range: "in_range CHR ''0'' hi c \<Longrightarrow> hi \<le> CHR ''9'' \<Longrightarrow> not_bracket c"
  by (auto simp add: not_bracket_def in_range_def less_eq_char_def)

lemma not_bracket_alpha: "is_alpha c \<Longrightarrow> not_bracket c"
  by (auto simp add: not_bracket_def is_alpha_def in_range_def less_eq_char_def)

lemma not_bracket_space: "is_space c \<Longrightarrow> not_bracket c"
  by (auto simp add: not_bracket_def is_space_def in_range_def less_eq_char_def)

lemma not_bracket_local: "is_local c \<Longrightarrow> not_bracket c"
  unfolding is_local_def using not_bracket_alpha not_bracket_digit
  by (auto simp add: not_bracket_def)

lemma not_bracket_domain: "is_domain c \<Longrightarrow> not_bracket c"
  unfolding is_domain_def using not_bracket_alpha not_bracket_digit
  by (auto simp add: not_bracket_def)

lemma not_bracket_sep: "is_sep c \<Longrightarrow> not_bracket c"
  unfolding is_sep_def using not_bracket_space
  by (auto simp add: not_bracket_def)

lemmas not_bracket_classes =
  not_bracket_digit not_bracket_alpha not_bracket_local not_bracket_domain not_bracket_sep

lemma bracket_classes:
  "\<not> is_digit CHR ''[''" "\<not> is_digit CHR '']''"
  "\<not> is_alpha CHR ''[''" "\<not> is_alpha CHR '']''"
  "\<not> is_local CHR ''[''" "\<not> is_local CHR '']''"
  "\<not> is_domain CHR ''[''" "\<not> is_domain CHR '']''"
  "\<not> is_sep CHR ''[''" "\<not> is_sep CHR '']''"
  "\<not> in_range CHR ''0'' CHR ''5'' CHR ''[''" "\<not> in_range CHR ''0'' CHR ''5'' CHR '']''"
  "\<not> in_range CHR ''0'' CHR ''4'' CHR ''[''" "\<not> in_range CHR ''0'' CHR ''4'' CHR '']''"
  using not_bracket_classes [of "CHR ''[''"] not_bracket_classes [of "CHR '']''"]
    not_bracket_range [of "CHR ''5''" "CHR ''[''"] not_bracket_range [of "CHR ''5''" "CHR '']''"]
    not_bracket_range [of "CHR ''4''" "CHR ''[''"] not_bracket_range [of "CHR ''4''" "CHR '']''"]
  by (auto simp add: not_bracket_def less_eq_char_def)

lemma wf_octet: "wf_matcher octet"
  unfolding octet_def m_seqs.simps
  by (intro wf_intros) (auto simp add: not_bracket_def bracket_classes)

lemma wf_IPV4: "wf_matcher IPV4"
  unfolding IPV4_def m_seqs.simps
  by (intro wf_intros wf_octet) (simp add: not_bracket_def)

lemma wf_EMAIL: "wf_matcher EMAIL"
  unfolding EMAIL_def m_seqs.simps
  by (intro wf_intros) (auto simp add: not_bracket_def bracket_classes)

lemma wf_SSN_US: "wf_matcher SSN_US"
  unfolding SSN_US_def m_seqs.simps
  by (intro wf_intros) (auto simp add: not_bracket_def bracket_classes)

lemma wf_PHONE_US: "wf_matcher PHONE_US"
  unfolding PHONE_US_def m_seqs.simps
  by (intro wf_intros) (auto simp add: not_bracket_def bracket_classes)

lemma wf_CREDIT_CARD: "wf_matcher CREDIT_CARD"
  unfolding CREDIT_CARD_def m_seqs.simps
  by (intro wf_intros) (auto simp add: not_bracket_def bracket_classes)

lemma starts_b_patterns:
  "starts_b IPV4" "starts_b EMAIL" "starts_b SSN_US" "starts_b PHONE_US" "starts_b CREDIT_CARD"
  unfolding IPV4_def EMAIL_def SSN_US_def PHONE_US_def CREDIT_CARD_def m_seqs.simps
  by (rule starts_b_wordb_seq)+

lemma ends_b_patterns:
  "ends_b IPV4" "ends_b EMAIL" "ends_b SSN_US" "ends_b PHONE_US" "ends_b CREDIT_CARD"
  unfolding IPV4_def EMAIL_def SSN_US_def PHONE_US_def CREDIT_CARD_def m_seqs.simps
  by (intro ends_b_seq ends_b_wordb)+

lemma localisedI:
  assumes "\<And>t t' x x'. (b \<Longrightarrow> word_after (None, t) = word_after (None, t')) \<Longrightarrow> sim b t t' x x' \<Longrightarrow>
     list_all2 (sim b t t') (filter (inside t) (m x)) (filter (inside t') (m x'))"
  shows "localised b m"
  using assms unfolding localised_def by blast

lemma localisedD:
  assumes "localised b m" "b \<Longrightarrow> word_after (None, t) = word_after (None, t')" "sim b t t' x x'"
  shows "list_all2 (sim b t t') (filter (inside t) (m x)) (filter (inside t') (m x'))"
  using assms unfolding localised_def by blast

lemma sim_inside: "sim b t t' x x' \<Longrightarrow> inside t x \<and> inside t' x'"
  unfolding sim_def inside_def by blast

lemma word_after_append:
  "word_after (p, v @ t) = (if v = [] then word_after (None, t) else word_after (None, v))"
  by (cases v; cases t) simp_all

lemma sim_word_after:
  assumes "sim b t t' x x'" "word_after (None, t) = word_after (None, t')"
  shows "word_after x = word_after x'"
proof -
  from assms(1) obtain v where v: "snd x = v @ t" "snd x' = v @ t'" unfolding sim_def by blast
  have "word_after x = word_after (fst x, v @ t)" using v(1) by (metis prod.collapse)
  moreover have "word_after x' = word_after (fst x', v @ t')" using v(2) by (metis prod.collapse)
  ultimately show ?thesis using assms(2) by (simp add: word_after_append)
qed

lemma local_eps [local_intros]: "localised b m_eps"
proof (rule localisedI)
  fix t t' x x' assume "sim b t t' x x'"
  then show "list_all2 (sim b t t') (filter (inside t) (m_eps x)) (filter (inside t') (m_eps x'))"
    using sim_inside [of b t t' x x'] by (simp add: m_eps_def)
qed

lemma local_wordb [local_intros]: "localised True m_wordb"
proof (rule localisedI)
  fix t t' x x'
  assume wa: "True \<Longrightarrow> word_after (None, t) = word_after (None, t')" and s: "sim True t t' x x'"
  from s have wb: "word_before x = word_before x'" unfolding sim_def by simp
  from sim_word_after [OF s] wa have "word_after x = word_after x'" by simp
  with wb show "list_all2 (sim True t t') (filter (inside t) (m_wordb x)) (filter (inside t') (m_wordb x'))"
    using s sim_inside [OF s] by (simp add: m_wordb_def)
qed

lemma inside_tl: "\<not> inside (c # cs) (p, cs)"
  unfolding inside_def by auto

lemma local_char [local_intros]: "localised b (m_char P)"
proof (rule localisedI)
  fix t t' x x' assume s: "sim b t t' x x'"
  then obtain v where v: "snd x = v @ t" "snd x' = v @ t'" unfolding sim_def by blast
  obtain p p' where x: "x = (p, v @ t)" "x' = (p', v @ t')"
    using v by (metis prod.collapse)
  show "list_all2 (sim b t t') (filter (inside t) (m_char P x)) (filter (inside t') (m_char P x'))"
  proof (cases v)
    case Nil
    have "filter (inside t) (m_char P (p, t)) = []"
      by (cases t) (simp_all add: inside_tl)
    moreover have "filter (inside t') (m_char P (p', t')) = []"
      by (cases t') (simp_all add: inside_tl)
    ultimately show ?thesis using x Nil by simp
  next
    case (Cons c v')
    have "inside t (Some c, v' @ t)" "inside t' (Some c, v' @ t')"
      unfolding inside_def by auto
    moreover have "sim b t t' (Some c, v' @ t) (Some c, v' @ t')"
      unfolding sim_def by auto
    ultimately show ?thesis using x Cons by simp
  qed
qed

lemma local_lit [local_intros]: "localised b (m_lit a)"
  unfolding m_lit_def by (rule local_char)

lemma local_alt [local_intros]:
  assumes "localised b m1" "localised b m2"
  shows "localised b (m_alt m1 m2)"
proof (rule localisedI)
  fix t t' x x'
  assume wa: "b \<Longrightarrow> word_after (None, t) = word_after (None, t')" and s: "sim b t t' x x'"
  from localisedD [OF assms(1) wa s] localisedD [OF assms(2) wa s]
  show "list_all2 (sim b t t') (filter (inside t) (m_alt m1 m2 x)) (filter (inside t') (m_alt m1 m2 x'))"
    by (simp add: m_alt_def list_all2_appendI)
qed

lemma local_opt [local_intros]: "localised b m \<Longrightarrow> localised b (m_opt m)"
  unfolding m_opt_def by (intro local_alt local_eps)

lemma inside_shrink:
  assumes "wf_matcher m" "y \<in> set (m z)" "inside t y"
  shows "inside t z"
proof -
  from wf_matcherD [OF assms(1,2)] obtain w where "snd z = w @ snd y" by blast
  moreover from assms(3) obtain v where "snd y = v @ t" unfolding inside_def by blast
  ultimately have "snd z = (w @ v) @ t" by simp
  then show ?thesis unfolding inside_def by blast
qed

lemma concat_map_skip:
  assumes "\<And>z. z \<in> set L \<Longrightarrow> \<not> P z \<Longrightarrow> f z = []"
  shows "concat (map f L) = concat (map f (filter P L))"
  using assms by (induction L) auto

lemma list_all2_concat_map:
  assumes "list_all2 S A A'" "\<And>z z'. S z z' \<Longrightarrow> list_all2 R (f z) (f' z')"
  shows "list_all2 R (concat (map f A)) (concat (map f' A'))"
  using assms by (induction A A' rule: list_all2_induct) (auto intro: list_all2_appendI)

lemma local_bind:
  assumes m1: "localised b m1"
    and wa: "b \<Longrightarrow> word_after (None, t) = word_after (None, t')" and s: "sim b t t' x x'"
    and skip: "\<And>z. \<not> inside t z \<Longrightarrow> filter (inside t) (f z) = []"
    and skip': "\<And>z. \<not> inside t' z \<Longrightarrow> filter (inside t') (f' z) = []"
    and rel: "\<And>z z'. sim b t t' z z' \<Longrightarrow>
       list_all2 (sim b t t') (filter (inside t) (f z)) (filter (inside t') (f' z'))"
  shows "list_all2 (sim b t t') (filter (inside t) (concat (map f (m1 x))))
           (filter (inside t') (concat (map f' (m1 x'))))"
proof -
  have 1: "filter (inside t) (concat (map f (m1 x))) =
       concat (map (\<lambda>z. filter (inside t) (f z)) (filter (inside t) (m1 x)))"
    using concat_map_skip [of "m1 x" "inside t" "\<lambda>z. filter (inside t) (f z)"] skip
    by (simp add: filter_concat comp_def)
  have 2: "filter (inside t') (concat (map f' (m1 x'))) =
       concat (map (\<lambda>z. filter (inside t') (f' z)) (filter (inside t') (m1 x')))"
    using concat_map_skip [of "m1 x'" "inside t'" "\<lambda>z. filter (inside t') (f' z)"] skip'
    by (simp add: filter_concat comp_def)
  from localisedD [OF m1 wa s]
  have "list_all2 (sim b t t') (filter (inside t) (m1 x)) (filter (inside t') (m1 x'))" .
  then show ?thesis unfolding 1 2 by (rule list_all2_concat_map) (rule rel)
qed

lemma filter_inside_skip:
  assumes "wf_matcher m" "\<not> inside t z"
  shows "filter (inside t) (m z) = []"
  using assms inside_shrink [of m _ z t] by (auto simp add: filter_empty_conv)

lemma local_seq [local_intros]:
  assumes "localised b m1" "localised b m2" "wf_matcher m2"
  shows "localised b (m_seq m1 m2)"
proof (rule localisedI)
  fix t t' x x'
  assume wa: "b \<Longrightarrow> word_after (None, t) = word_after (None, t')" and s: "sim b t t' x x'"
  show "list_all2 (sim b t t') (filter (inside t) (m_seq m1 m2 x)) (filter (inside t') (m_seq m1 m2 x'))"
    unfolding m_seq_def
  proof (rule local_bind [OF assms(1) wa s])
    fix z assume "\<not> inside t z"
    then show "filter (inside t) (m2 z) = []" by (rule filter_inside_skip [OF assms(3)])
  next
    fix z assume "\<not> inside t' z"
    then show "filter (inside t') (m2 z) = []" by (rule filter_inside_skip [OF assms(3)])
  next
    fix z z' assume z: "sim b t t' z z'"
    show "list_all2 (sim b t t') (filter (inside t) (m2 z)) (filter (inside t') (m2 z'))"
      by (rule localisedD [OF assms(2) wa z])
  qed
qed

lemma sim_length:
  assumes "sim b t t' x x'" "sim b t t' z z'"
  shows "length (snd z) < length (snd x) \<longleftrightarrow> length (snd z') < length (snd x')"
proof -
  from assms(1) obtain u where "snd x = u @ t" "snd x' = u @ t'" unfolding sim_def by blast
  moreover from assms(2) obtain v where "snd z = v @ t" "snd z' = v @ t'" unfolding sim_def by blast
  ultimately show ?thesis by simp
qed

lemma local_progress [local_intros]:
  assumes "localised b m1" "localised b m2" "wf_matcher m2"
  shows "localised b (m_progress m1 m2)"
proof (rule localisedI)
  fix t t' x x'
  assume wa: "b \<Longrightarrow> word_after (None, t) = word_after (None, t')" and s: "sim b t t' x x'"
  show "list_all2 (sim b t t') (filter (inside t) (m_progress m1 m2 x))
          (filter (inside t') (m_progress m1 m2 x'))"
    unfolding m_progress_def
  proof (rule local_bind [OF assms(1) wa s])
    fix z assume "\<not> inside t z"
    then show "filter (inside t) (if length (snd z) < length (snd x) then m2 z else []) = []"
      by (simp add: filter_inside_skip [OF assms(3)])
  next
    fix z assume "\<not> inside t' z"
    then show "filter (inside t') (if length (snd z) < length (snd x') then m2 z else []) = []"
      by (simp add: filter_inside_skip [OF assms(3)])
  next
    fix z z' assume z: "sim b t t' z z'"
    from sim_length [OF s z] localisedD [OF assms(2) wa z]
    show "list_all2 (sim b t t') (filter (inside t) (if length (snd z) < length (snd x) then m2 z else []))
            (filter (inside t') (if length (snd z') < length (snd x') then m2 z' else []))"
      by simp
  qed
qed

lemma local_repeat [local_intros]:
  assumes "localised b m" "wf_matcher m"
  shows "localised b (m_repeat mn mx m)"
proof (induction mx arbitrary: mn)
  case 0
  show ?case unfolding m_repeat_0 by (rule local_eps)
next
  case (Suc mx)
  show ?case
  proof (cases mn)
    case 0
    show ?thesis unfolding 0 m_repeat_Suc_0
      by (intro local_alt local_progress local_eps assms Suc wf_repeat)
  next
    case (Suc n)
    show ?thesis unfolding Suc m_repeat_Suc_Suc
      by (intro local_seq assms Suc.IH wf_repeat)
  qed
qed

lemma local_lazy_fuel:
  assumes "localised b m" "wf_matcher m"
  shows "localised b (m_lazy_fuel k m)"
proof (induction k)
  case 0
  show ?case unfolding m_lazy_fuel_0 by (rule local_eps)
next
  case (Suc k)
  show ?case unfolding m_lazy_fuel_Suc
    by (intro local_alt local_progress local_eps assms Suc wf_lazy_fuel)
qed

text \<open>More fuel than code units remain changes nothing.\<close>

lemma repeat_fuel:
  "length (snd x) \<le> a \<Longrightarrow> length (snd x) \<le> b \<Longrightarrow> m_repeat 0 a m x = m_repeat 0 b m x"
proof (induction a arbitrary: b x)
  case 0
  then show ?case by (cases b) simp_all
next
  case (Suc a)
  show ?case
  proof (cases b)
    case 0
    with Suc.prems show ?thesis by simp
  next
    case (Suc b')
    have "map (\<lambda>y. if length (snd y) < length (snd x) then m_repeat 0 a m y else []) (m x) =
          map (\<lambda>y. if length (snd y) < length (snd x) then m_repeat 0 b' m y else []) (m x)"
    proof (rule map_cong [OF refl])
      fix y assume "y \<in> set (m x)"
      show "(if length (snd y) < length (snd x) then m_repeat 0 a m y else []) =
            (if length (snd y) < length (snd x) then m_repeat 0 b' m y else [])"
      proof (cases "length (snd y) < length (snd x)")
        case True
        with Suc.prems \<open>b = Suc b'\<close> have "length (snd y) \<le> a" "length (snd y) \<le> b'" by simp_all
        then have "m_repeat 0 a m y = m_repeat 0 b' m y" by (rule Suc.IH)
        then show ?thesis by simp
      next
        case False
        then show ?thesis by simp
      qed
    qed
    then have "concat (map (\<lambda>y. if length (snd y) < length (snd x) then m_repeat 0 a m y else []) (m x)) @ [x] =
          concat (map (\<lambda>y. if length (snd y) < length (snd x) then m_repeat 0 b' m y else []) (m x)) @ [x]"
      by (rule arg_cong [where f = "\<lambda>l. concat l @ [x]"])
    then show ?thesis unfolding Suc m_repeat.simps by (simp only: simp_thms if_True)
  qed
qed

lemma lazy_fuel:
  "length (snd x) \<le> a \<Longrightarrow> length (snd x) \<le> b \<Longrightarrow> m_lazy_fuel a m x = m_lazy_fuel b m x"
proof (induction a arbitrary: b x)
  case 0
  then show ?case by (cases b) simp_all
next
  case (Suc a)
  show ?case
  proof (cases b)
    case 0
    with Suc.prems show ?thesis by simp
  next
    case (Suc b')
    have "map (\<lambda>y. if length (snd y) < length (snd x) then m_lazy_fuel a m y else []) (m x) =
          map (\<lambda>y. if length (snd y) < length (snd x) then m_lazy_fuel b' m y else []) (m x)"
    proof (rule map_cong [OF refl])
      fix y assume "y \<in> set (m x)"
      show "(if length (snd y) < length (snd x) then m_lazy_fuel a m y else []) =
            (if length (snd y) < length (snd x) then m_lazy_fuel b' m y else [])"
      proof (cases "length (snd y) < length (snd x)")
        case True
        with Suc.prems \<open>b = Suc b'\<close> have "length (snd y) \<le> a" "length (snd y) \<le> b'" by simp_all
        then have "m_lazy_fuel a m y = m_lazy_fuel b' m y" by (rule Suc.IH)
        then show ?thesis by simp
      next
        case False
        then show ?thesis by simp
      qed
    qed
    then have "x # concat (map (\<lambda>y. if length (snd y) < length (snd x) then m_lazy_fuel a m y else []) (m x)) =
          x # concat (map (\<lambda>y. if length (snd y) < length (snd x) then m_lazy_fuel b' m y else []) (m x))"
      by (rule arg_cong [where f = "\<lambda>l. x # concat l"])
    then show ?thesis unfolding Suc m_lazy_fuel.simps .
  qed
qed

lemma local_star [local_intros]:
  assumes "localised b m" "wf_matcher m"
  shows "localised b (m_star m)"
proof (rule localisedI)
  fix t t' x x'
  assume wa: "b \<Longrightarrow> word_after (None, t) = word_after (None, t')" and s: "sim b t t' x x'"
  let ?n = "max (length (snd x)) (length (snd x'))"
  have "m_star m x = m_repeat 0 ?n m x" "m_star m x' = m_repeat 0 ?n m x'"
    unfolding m_star_def by (rule repeat_fuel; simp)+
  with localisedD [OF local_repeat [OF assms, of 0 ?n] wa s]
  show "list_all2 (sim b t t') (filter (inside t) (m_star m x)) (filter (inside t') (m_star m x'))"
    by simp
qed

lemma local_lazy_star [local_intros]:
  assumes "localised b m" "wf_matcher m"
  shows "localised b (m_lazy_star m)"
proof (rule localisedI)
  fix t t' x x'
  assume wa: "b \<Longrightarrow> word_after (None, t) = word_after (None, t')" and s: "sim b t t' x x'"
  let ?n = "max (length (snd x)) (length (snd x'))"
  have "m_lazy_star m x = m_lazy_fuel ?n m x" "m_lazy_star m x' = m_lazy_fuel ?n m x'"
    unfolding m_lazy_star_def by (rule lazy_fuel; simp)+
  with localisedD [OF local_lazy_fuel [OF assms, of ?n] wa s]
  show "list_all2 (sim b t t') (filter (inside t) (m_lazy_star m x))
          (filter (inside t') (m_lazy_star m x'))"
    by simp
qed

lemma local_repeat_from [local_intros]:
  assumes "localised b m" "wf_matcher m"
  shows "localised b (m_repeat_from n m)"
  by (induction n) (simp_all add: local_star local_seq wf_repeat_from assms)

lemma local_plus [local_intros]:
  "localised b m \<Longrightarrow> wf_matcher m \<Longrightarrow> localised b (m_plus m)"
  unfolding m_plus_def by (rule local_repeat_from)

lemma local_str [local_intros]: "list_all not_bracket w \<Longrightarrow> localised b (m_str w)"
  by (induction w) (simp_all add: local_eps local_seq local_lit wf_str)

subsection \<open>A lookahead before a sequence that consumes what the lookahead reads\<close>

lemma m_not_seq: "m_seq (m_not k) rest x = (if k x = [] then rest x else [])"
  by (simp add: m_seq_def m_not_def)

lemma local_not_seq:
  assumes k: "localised False k" "wf_matcher k" "maxlen n k"
    and r: "localised b rest" "wf_matcher rest" "minlen n rest"
  shows "localised b (m_seq (m_not k) rest)"
proof (rule localisedI)
  fix t t' x x'
  assume wa: "b \<Longrightarrow> word_after (None, t) = word_after (None, t')" and s: "sim b t t' x x'"
  from s obtain u where u: "snd x = u @ t" "snd x' = u @ t'" unfolding sim_def by blast
  show "list_all2 (sim b t t') (filter (inside t) (m_seq (m_not k) rest x))
          (filter (inside t') (m_seq (m_not k) rest x'))"
  proof (cases "n \<le> length u")
    case True
    have all_inside: "filter (inside r) (k z) = k z" if z: "snd z = u @ r" for z r
    proof -
      have "inside r y" if y: "y \<in> set (k z)" for y
      proof -
        from wf_matcherD [OF k(2) y] obtain w where w: "snd z = w @ snd y" by blast
        from k(3) y have "length (snd z) \<le> length (snd y) + n" unfolding maxlen_def by blast
        with w True have "length w \<le> length u" by simp
        with w z have "snd y = drop (length w) u @ r"
          by (metis append_eq_conv_conj drop_append diff_is_0_eq drop_0)
        then show ?thesis unfolding inside_def by blast
      qed
      then show ?thesis by (simp add: filter_id_conv)
    qed
    have "sim False t t' x x'" using u unfolding sim_def by blast
    from localisedD [OF k(1) _ this]
    have "list_all2 (sim False t t') (filter (inside t) (k x)) (filter (inside t') (k x'))" by simp
    then have "list_all2 (sim False t t') (k x) (k x')"
      using all_inside [OF u(1)] all_inside [OF u(2)] by simp
    then have "k x = [] \<longleftrightarrow> k x' = []" by (auto dest: list_all2_lengthD)
    with localisedD [OF r(1) wa s] show ?thesis by (simp add: m_not_seq)
  next
    case False
    have none_inside: "filter (inside r) (rest z) = []" if z: "snd z = u @ r" for z r
    proof -
      have "\<not> inside r y" if y: "y \<in> set (rest z)" for y
      proof
        assume "inside r y"
        then obtain v where "snd y = v @ r" unfolding inside_def by blast
        moreover from r(3) y have "length (snd y) + n \<le> length (snd z)" unfolding minlen_def by blast
        ultimately show False using z False by simp
      qed
      then show ?thesis by (simp add: filter_empty_conv)
    qed
    from none_inside [OF u(1)] none_inside [OF u(2)] show ?thesis by (simp add: m_not_seq)
  qed
qed

subsection \<open>The five patterns are local\<close>

lemma local_octet: "localised True octet"
  unfolding octet_def m_seqs.simps
  by (intro local_intros wf_intros) (auto simp add: not_bracket_def bracket_classes)

lemma local_IPV4: "localised True IPV4"
  unfolding IPV4_def m_seqs.simps
  by (intro local_intros wf_intros local_octet wf_octet) (auto simp add: not_bracket_def bracket_classes)

lemma local_EMAIL: "localised True EMAIL"
  unfolding EMAIL_def m_seqs.simps
  by (intro local_intros wf_intros) (auto simp add: not_bracket_def bracket_classes)

lemma local_PHONE_US: "localised True PHONE_US"
  unfolding PHONE_US_def m_seqs.simps
  by (intro local_intros wf_intros) (auto simp add: not_bracket_def bracket_classes)

lemma local_CREDIT_CARD: "localised True CREDIT_CARD"
  unfolding CREDIT_CARD_def m_seqs.simps
  by (intro local_intros wf_intros) (auto simp add: not_bracket_def bracket_classes)

subsection \<open>The ssn pattern, lookahead by lookahead\<close>

lemma digits_lits: "not_bracket CHR ''0''" "not_bracket CHR ''6''" "not_bracket CHR ''9''"
  "not_bracket CHR ''-''"
  by (simp_all add: not_bracket_def)

lemma maxlen_str_len: "length w = n \<Longrightarrow> maxlen n (m_str w)"
  using maxlen_str [of w] by simp

lemma local_SSN_US: "localised True SSN_US"
proof -
  let ?d = "m_char is_digit"
  let ?dash = "m_lit CHR ''-''"
  let ?k1 = "m_alt (m_str ''000'') (m_alt (m_str ''666'')
               (m_seq (m_lit CHR ''9'') (m_repeat 2 2 ?d)))"
  let ?k2 = "m_str ''00''"
  let ?k3 = "m_str ''0000''"
  let ?r3 = "m_seq (m_opt ?dash) (m_seq (m_repeat 4 4 ?d) m_wordb)"
  let ?b3 = "m_seq (m_not ?k3) ?r3"
  let ?r2 = "m_seq (m_opt ?dash) (m_seq (m_repeat 2 2 ?d) (m_seq ?dash ?b3))"
  let ?b2 = "m_seq (m_not ?k2) ?r2"
  let ?r1 = "m_seq (m_opt ?dash) (m_seq (m_repeat 3 3 ?d) (m_seq ?dash ?b2))"
  let ?b1 = "m_seq (m_not ?k1) ?r1"
  have wd: "wf_matcher ?d" by (intro wf_intros not_bracket_digit)
  have wdash: "wf_matcher ?dash" by (intro wf_intros digits_lits)
  have wopt: "wf_matcher (m_opt ?dash)" by (intro wf_intros digits_lits)
  have ld: "localised b ?d" for b by (rule local_char)
  have lopt: "localised b (m_opt ?dash)" for b by (intro local_intros)
  have k1: "localised False ?k1" "wf_matcher ?k1" "maxlen 3 ?k1"
  proof -
    show "localised False ?k1"
      by (intro local_intros wf_intros) (auto simp add: not_bracket_def bracket_classes)
    show "wf_matcher ?k1"
      by (intro wf_intros) (auto simp add: not_bracket_def bracket_classes)
    have "maxlen (1 + (1 + 1)) (m_seq (m_lit CHR ''9'') (m_seq ?d ?d))"
      by (intro maxlen_seq maxlen_lit maxlen_char)
    then have "maxlen 3 (m_seq (m_lit CHR ''9'') (m_repeat 2 2 ?d))"
      by (simp add: numeral_2_eq_2 numeral_3_eq_3 m_repeat_Suc_Suc m_repeat_0)
    moreover have "maxlen 3 (m_str ''000'')" "maxlen 3 (m_str ''666'')"
      by (rule maxlen_str_len; simp)+
    ultimately show "maxlen 3 ?k1" by (intro maxlen_alt)
  qed
  have k2: "localised False ?k2" "wf_matcher ?k2" "maxlen 2 ?k2"
  proof -
    show "localised False ?k2" by (rule local_str) (simp add: not_bracket_def)
    show "wf_matcher ?k2" by (rule wf_str) (simp add: not_bracket_def)
    show "maxlen 2 ?k2" by (rule maxlen_str_len) simp
  qed
  have k3: "localised False ?k3" "wf_matcher ?k3" "maxlen 4 ?k3"
  proof -
    show "localised False ?k3" by (rule local_str) (simp add: not_bracket_def)
    show "wf_matcher ?k3" by (rule wf_str) (simp add: not_bracket_def)
    show "maxlen 4 ?k3" by (rule maxlen_str_len) simp
  qed
  let ?t3 = "m_seq (m_repeat 4 4 ?d) m_wordb"
  have t3: "localised True ?t3" "wf_matcher ?t3" "minlen 4 ?t3"
  proof -
    show "localised True ?t3" by (rule local_seq [OF local_repeat [OF ld wd] local_wordb wf_wordb])
    show "wf_matcher ?t3" by (rule wf_seq [OF wf_repeat [OF wd] wf_wordb])
    show "minlen 4 ?t3" by (rule minlen_seq_left [OF minlen_repeat_4 wf_wordb])
  qed
  have r3: "localised True ?r3" "wf_matcher ?r3" "minlen 4 ?r3"
  proof -
    show "localised True ?r3" by (rule local_seq [OF lopt t3(1,2)])
    show "wf_matcher ?r3" by (rule wf_seq [OF wopt t3(2)])
    show "minlen 4 ?r3" by (rule minlen_seq_right [OF wopt t3(3)])
  qed
  have b3: "localised True ?b3" "wf_matcher ?b3"
  proof -
    show "localised True ?b3" by (rule local_not_seq [OF k3 r3])
    show "wf_matcher ?b3" by (rule wf_seq [OF wf_not r3(2)])
  qed
  let ?u2 = "m_seq ?dash ?b3"
  have u2: "localised True ?u2" "wf_matcher ?u2"
  proof -
    show "localised True ?u2" by (rule local_seq [OF local_lit b3])
    show "wf_matcher ?u2" by (rule wf_seq [OF wdash b3(2)])
  qed
  let ?t2 = "m_seq (m_repeat 2 2 ?d) ?u2"
  have t2: "localised True ?t2" "wf_matcher ?t2" "minlen 2 ?t2"
  proof -
    show "localised True ?t2" by (rule local_seq [OF local_repeat [OF ld wd] u2])
    show "wf_matcher ?t2" by (rule wf_seq [OF wf_repeat [OF wd] u2(2)])
    show "minlen 2 ?t2" by (rule minlen_seq_left [OF minlen_repeat_2 u2(2)])
  qed
  have r2: "localised True ?r2" "wf_matcher ?r2" "minlen 2 ?r2"
  proof -
    show "localised True ?r2" by (rule local_seq [OF lopt t2(1,2)])
    show "wf_matcher ?r2" by (rule wf_seq [OF wopt t2(2)])
    show "minlen 2 ?r2" by (rule minlen_seq_right [OF wopt t2(3)])
  qed
  have b2: "localised True ?b2" "wf_matcher ?b2"
  proof -
    show "localised True ?b2" by (rule local_not_seq [OF k2 r2])
    show "wf_matcher ?b2" by (rule wf_seq [OF wf_not r2(2)])
  qed
  let ?u1 = "m_seq ?dash ?b2"
  have u1: "localised True ?u1" "wf_matcher ?u1"
  proof -
    show "localised True ?u1" by (rule local_seq [OF local_lit b2])
    show "wf_matcher ?u1" by (rule wf_seq [OF wdash b2(2)])
  qed
  let ?t1 = "m_seq (m_repeat 3 3 ?d) ?u1"
  have t1: "localised True ?t1" "wf_matcher ?t1" "minlen 3 ?t1"
  proof -
    show "localised True ?t1" by (rule local_seq [OF local_repeat [OF ld wd] u1])
    show "wf_matcher ?t1" by (rule wf_seq [OF wf_repeat [OF wd] u1(2)])
    show "minlen 3 ?t1" by (rule minlen_seq_left [OF minlen_repeat_3 u1(2)])
  qed
  have r1: "localised True ?r1" "wf_matcher ?r1" "minlen 3 ?r1"
  proof -
    show "localised True ?r1" by (rule local_seq [OF lopt t1(1,2)])
    show "wf_matcher ?r1" by (rule wf_seq [OF wopt t1(2)])
    show "minlen 3 ?r1" by (rule minlen_seq_right [OF wopt t1(3)])
  qed
  have b1: "localised True ?b1" "wf_matcher ?b1"
  proof -
    show "localised True ?b1" by (rule local_not_seq [OF k1 r1])
    show "wf_matcher ?b1" by (rule wf_seq [OF wf_not r1(2)])
  qed
  have "localised True (m_seq m_wordb ?b1)" by (rule local_seq [OF local_wordb b1])
  then show ?thesis unfolding SSN_US_def m_seqs.simps .
qed

subsection \<open>Every pattern consumes at least one code unit\<close>

lemma minlen_octet: "minlen 1 octet"
  unfolding octet_def m_seqs.simps
  by (intro minlen_alt minlen_seq_left minlen_lit wf_intros
        minlen_seq_right [of "m_opt _"] minlen_char)
     (auto simp add: not_bracket_def bracket_classes)

lemma minlen_repeat: "minlen 1 m \<Longrightarrow> wf_matcher m \<Longrightarrow> minlen 1 (m_repeat (Suc n) (Suc k) m)"
  unfolding m_repeat_Suc_Suc by (intro minlen_seq_left wf_repeat)

lemma minlen_IPV4: "minlen 1 IPV4"
proof -
  have "minlen 1 (m_seq octet (m_lit CHR ''.''))"
    by (intro minlen_seq_left minlen_octet wf_intros) (simp add: not_bracket_def)
  moreover have "wf_matcher (m_seq octet (m_lit CHR ''.''))"
    by (intro wf_intros wf_octet) (simp add: not_bracket_def)
  ultimately have "minlen 1 (m_repeat (Suc 2) (Suc 2) (m_seq octet (m_lit CHR ''.'')))"
    by (rule minlen_repeat)
  then have "minlen 1 (m_repeat 3 3 (m_seq octet (m_lit CHR ''.'')))"
    by (simp only: numeral_3_eq_3 numeral_2_eq_2)
  then show ?thesis unfolding IPV4_def m_seqs.simps
    by (intro minlen_seq_right minlen_seq_left wf_intros wf_octet)
qed

lemma m_plus_seq: "m_plus m = m_seq m (m_star m)"
  by (simp add: m_plus_def)

lemma minlen_plus: "wf_matcher (m_char P) \<Longrightarrow> minlen 1 (m_plus (m_char P))"
  unfolding m_plus_seq by (intro minlen_seq_left minlen_char wf_star)

lemma minlen_EMAIL: "minlen 1 EMAIL"
  unfolding EMAIL_def m_seqs.simps
  by (intro minlen_seq_right [of m_wordb] minlen_seq_left minlen_plus wf_intros)
     (auto simp add: not_bracket_def bracket_classes)

lemma minlen_SSN_US: "minlen 1 SSN_US"
proof -
  have "minlen 3 (m_repeat 3 3 (m_char is_digit))" by (rule minlen_repeat_3)
  then have "minlen 1 (m_repeat 3 3 (m_char is_digit))" by (rule minlen_mono) simp
  then show ?thesis unfolding SSN_US_def m_seqs.simps
    by (intro minlen_seq_right [of m_wordb] minlen_seq_right [of "m_not _"]
          minlen_seq_right [of "m_opt _"] minlen_seq_left wf_intros)
       (auto simp add: not_bracket_def bracket_classes)
qed

lemma minlen_PHONE_US: "minlen 1 PHONE_US"
proof -
  have "minlen 3 (m_repeat 3 3 (m_char is_digit))" by (rule minlen_repeat_3)
  then have "minlen 1 (m_repeat 3 3 (m_char is_digit))" by (rule minlen_mono) simp
  then show ?thesis unfolding PHONE_US_def m_seqs.simps
    by (intro minlen_seq_right [of m_wordb] minlen_seq_right [of "m_opt _"] minlen_seq_left wf_intros)
       (auto simp add: not_bracket_def bracket_classes)
qed

lemma minlen_CREDIT_CARD: "minlen 1 CREDIT_CARD"
proof -
  let ?item = "m_seq (m_char is_digit) (m_lazy_star (m_char (\<lambda>c. c = CHR '' '' \<or> c = CHR ''-'')))"
  have w: "wf_matcher ?item" by (intro wf_intros) (auto simp add: not_bracket_def bracket_classes)
  have "minlen 1 ?item"
    by (intro minlen_seq_left minlen_char wf_intros) (auto simp add: not_bracket_def)
  then have "minlen 1 (m_repeat (Suc 12) (Suc 18) ?item)"
    using w by (rule minlen_repeat)
  moreover have "Suc 12 = 13" "Suc 18 = 19" by simp_all
  ultimately have "minlen 1 (m_repeat 13 19 ?item)" by (simp only:)
  then show ?thesis unfolding CREDIT_CARD_def m_seqs.simps
    by (intro minlen_seq_right [of m_wordb] minlen_seq_left wf_intros)
qed

subsection \<open>No pattern matches inside the placeholder\<close>

lemma inside_placeholder:
  "nowhere_upto IPV4 (Some CHR ''['') ''REDACTED'' '']''"
  "nowhere_upto EMAIL (Some CHR ''['') ''REDACTED'' '']''"
  "nowhere_upto SSN_US (Some CHR ''['') ''REDACTED'' '']''"
  "nowhere_upto PHONE_US (Some CHR ''['') ''REDACTED'' '']''"
  "nowhere_upto CREDIT_CARD (Some CHR ''['') ''REDACTED'' '']''"
  by code_simp+

lemma good_patterns:
  "good IPV4" "good EMAIL" "good SSN_US" "good PHONE_US" "good CREDIT_CARD"
  unfolding good_def
  by (intro conjI local_IPV4 local_EMAIL local_SSN_US local_PHONE_US local_CREDIT_CARD
        wf_IPV4 wf_EMAIL wf_SSN_US wf_PHONE_US wf_CREDIT_CARD
        minlen_IPV4 minlen_EMAIL minlen_SSN_US minlen_PHONE_US minlen_CREDIT_CARD
        starts_b_patterns ends_b_patterns inside_placeholder)+

subsection \<open>Transfer between two texts with a common prefix\<close>

lemma word_before_fst: "word_before (p, s) = word_before (p, s')"
  by (cases p) simp_all

lemma word_after_snd: "word_after (p, s) = word_after (p', s)"
  by (cases s) simp_all

lemma bracket_not_word: "\<not> not_bracket c \<Longrightarrow> \<not> is_word c"
  by (auto simp add: not_bracket_def is_word_def is_alpha_def is_digit_def in_range_def less_eq_char_def)

lemma bracket_fail:
  assumes "wf_matcher m" "minlen 1 m" "\<not> not_bracket c"
  shows "m (p, c # X) = []"
proof (rule ccontr)
  assume "m (p, c # X) \<noteq> []"
  then obtain y where y: "y \<in> set (m (p, c # X))" by (cases "m (p, c # X)") auto
  from wf_matcherD [OF assms(1) y] obtain w where
    w: "snd (p, c # X) = w @ snd y" "list_all not_bracket w" by blast
  from assms(2) y have "length (snd y) + 1 \<le> length (snd (p, c # X))" unfolding minlen_def by blast
  with w(1) have "w \<noteq> []" by auto
  with w(1) have "hd w = c" by (cases w) auto
  with \<open>w \<noteq> []\<close> w(2) assms(3) show False by (cases w) auto
qed

lemma all_inside:
  assumes "wf_matcher m" "t' = [] \<or> \<not> not_bracket (hd t')" "y' \<in> set (m (p', u @ t'))"
  shows "inside t' y'"
proof -
  from wf_matcherD [OF assms(1,3)] obtain w where
    w: "u @ t' = w @ snd y'" "list_all not_bracket w" by auto
  from w(1) obtain us where "(u = w @ us \<and> us @ t' = snd y') \<or> (u @ us = w \<and> t' = us @ snd y')"
    unfolding append_eq_append_conv2 by blast
  then show ?thesis
  proof
    assume "u = w @ us \<and> us @ t' = snd y'"
    then have "snd y' = us @ t'" by simp
    then show ?thesis unfolding inside_def by blast
  next
    assume a: "u @ us = w \<and> t' = us @ snd y'"
    show ?thesis
    proof (cases us)
      case Nil
      with a show ?thesis unfolding inside_def by auto
    next
      case (Cons c us')
      with a have "hd t' = c" "t' \<noteq> []" "c \<in> set w" by auto
      with assms(2) w(2) show ?thesis by (auto simp add: list_all_iff)
    qed
  qed
qed

lemma transfer_same:
  assumes lm: "localised True m" and wf: "wf_matcher m"
    and wb: "word_before (p, u @ t) = word_before (p', u @ t')"
    and tb: "t' = [] \<or> \<not> not_bracket (hd t')"
    and wa: "word_after (None, t) = word_after (None, t')"
  shows "list_all2 (sim True t t') (filter (inside t) (m (p, u @ t))) (m (p', u @ t'))"
proof -
  have ins: "filter (inside t') (m (p', u @ t')) = m (p', u @ t')"
    using all_inside [OF wf tb] by (simp add: filter_id_conv)
  have "\<exists>v. u @ t = v @ t \<and> u @ t' = v @ t'" by blast
  then have "sim True t t' (p, u @ t) (p', u @ t')" unfolding sim_def using wb by simp
  from localisedD [OF lm wa this] ins show ?thesis by simp
qed

lemma transfer_start:
  assumes wf: "wf_matcher m" and ml: "minlen 1 m"
    and ne: "t' \<noteq> []" and br: "\<not> not_bracket (hd t')"
  shows "list_all2 (sim True t t') (filter (inside t) (m (p, t))) (m (p', t'))"
proof -
  from ne obtain c r where t': "t' = c # r" by (cases t') auto
  with br have "\<not> not_bracket c" by simp
  from bracket_fail [OF wf ml this] have 1: "m (p', t') = []" unfolding t' .
  have "\<not> inside t y" if y: "y \<in> set (m (p, t))" for y
  proof
    assume "inside t y"
    then obtain v where v: "snd y = v @ t" unfolding inside_def by blast
    from ml y have "length (snd y) + 1 \<le> length (snd (p, t))" unfolding minlen_def by blast
    with v show False by simp
  qed
  then have "filter (inside t) (m (p, t)) = []" by (simp add: filter_empty_conv)
  with 1 show ?thesis by simp
qed

lemma append_last_split:
  assumes "u \<noteq> []"
  shows "u @ r = butlast u @ last u # r"
proof -
  from assms have "butlast u @ [last u] = u" by simp
  from arg_cong [OF this, of "\<lambda>l. l @ r"] show ?thesis by simp
qed

lemma transfer_shift:
  assumes lm: "localised True m" and wf: "wf_matcher m" and eb: "ends_b m"
    and wb: "word_before (p, u @ t) = word_before (p', u @ t')"
    and ne: "t' \<noteq> []" and br: "\<not> not_bracket (hd t')"
    and u: "u \<noteq> []" and nw: "\<not> is_word (last u)"
  shows "list_all2 (sim True (last u # t) (last u # t')) (filter (inside (last u # t)) (m (p, u @ t)))
           (m (p', u @ t'))"
proof -
  let ?c = "last u"
  have nwa: "\<not> word_after (q, t')" for q
  proof -
    from ne obtain c r where t': "t' = c # r" by (cases t') auto
    with br have "\<not> is_word c" using bracket_not_word by simp
    then show ?thesis unfolding t' by simp
  qed
  have eq: "u @ t = butlast u @ ?c # t" "u @ t' = butlast u @ ?c # t'"
    by (rule append_last_split [OF u])+
  then have "\<exists>v. u @ t = v @ ?c # t \<and> u @ t' = v @ ?c # t'" by blast
  then have "sim True (?c # t) (?c # t') (p, u @ t) (p', u @ t')"
    unfolding sim_def using wb by simp
  from localisedD [OF lm _ this]
  have l2: "list_all2 (sim True (?c # t) (?c # t')) (filter (inside (?c # t)) (m (p, u @ t)))
              (filter (inside (?c # t')) (m (p', u @ t')))" by simp
  have "inside (?c # t') y'" if y': "y' \<in> set (m (p', u @ t'))" for y'
  proof -
    from all_inside [OF wf _ y'] br obtain v where v: "snd y' = v @ t'"
      unfolding inside_def by blast
    from wf_matcherD [OF wf y'] obtain w where
      w: "snd (p', u @ t') = w @ snd y'" "fst y' = (if w = [] then fst (p', u @ t') else Some (last w))"
      by blast
    from w(1) v have uw: "u = w @ v" by simp
    show ?thesis
    proof (cases "v = []")
      case True
      with uw u have wu: "w = u" "w \<noteq> []" by simp_all
      obtain q r where y: "y' = (q, r)" by (cases y')
      from w(2) wu y have "q = Some ?c" by simp
      with nw have "\<not> word_before y'" unfolding y by simp
      moreover from v True y have "r = t'" by simp
      then have "\<not> word_after y'" unfolding y using nwa by simp
      moreover from eb y' have "boundary y'" unfolding ends_b_def by blast
      ultimately show ?thesis unfolding boundary_def by simp
    next
      case False
      with uw have "last v = ?c" by simp
      with append_last_split [OF False, of t'] v have "snd y' = butlast v @ ?c # t'" by simp
      then show ?thesis unfolding inside_def by blast
    qed
  qed
  then have "filter (inside (?c # t')) (m (p', u @ t')) = m (p', u @ t')"
    by (simp add: filter_id_conv)
  with l2 show ?thesis by simp
qed

lemma transfer_lists:
  assumes g: "good m"
    and wb: "word_before (p, a) = word_before (p', a')"
    and tc: "tails_ok p u t t'"
  shows "\<exists>t0 t0'. list_all2 (sim True t0 t0') (filter (inside t0) (m (p, u @ t))) (m (p', u @ t')) \<and>
           ((t0 = t \<and> t0' = t') \<or>
            (u \<noteq> [] \<and> t0 = last u # t \<and> t0' = last u # t' \<and> word_after (None, t)))"
proof -
  from g have lm: "localised True m" and wf: "wf_matcher m" and ml: "minlen 1 m"
    and eb: "ends_b m" unfolding good_def by blast+
  from tc have tb: "t' = [] \<or> \<not> not_bracket (hd t')" unfolding tails_ok_def by blast
  have wb': "word_before (p, u @ t) = word_before (p', u @ t')"
    using wb by (cases p; cases p') simp_all
  show ?thesis
  proof (cases "word_after (None, t) = word_after (None, t')")
    case True
    from transfer_same [OF lm wf wb' tb True] show ?thesis
      by (intro exI [of _ t] exI [of _ t']) simp
  next
    case False
    with tc have nb: "\<not> word_before (prev_of p u, t)" and ne: "t' \<noteq> []"
      unfolding tails_ok_def by blast+
    from tb ne have br: "\<not> not_bracket (hd t')" by blast
    have "\<not> word_after (None, t')"
    proof -
      from ne obtain c r where t': "t' = c # r" by (cases t') auto
      with br have "\<not> is_word c" using bracket_not_word by simp
      then show ?thesis unfolding t' by simp
    qed
    with False have wat: "word_after (None, t)" by simp
    show ?thesis
    proof (cases "u = []")
      case True
      from transfer_start [OF wf ml ne br, of t p p'] True show ?thesis
        by (intro exI [of _ t] exI [of _ t']) simp
    next
      case False
      from False nb have nw: "\<not> is_word (last u)" unfolding prev_of_def by simp
      from transfer_shift [OF lm wf eb wb' ne br False nw] wat False show ?thesis
        by (intro exI [of _ "last u # t"] exI [of _ "last u # t'"]) simp
    qed
  qed
qed

lemma transfer_empty:
  assumes "good m" "word_before (p, a) = word_before (p', a')" "tails_ok p u t t'"
    and "m (p, u @ t) = []"
  shows "m (p', u @ t') = []"
proof -
  from transfer_lists [OF assms(1,2,3)] obtain t0 t0' where
    "list_all2 (sim True t0 t0') (filter (inside t0) (m (p, u @ t))) (m (p', u @ t'))" by blast
  with assms(4) show ?thesis by simp
qed

lemma transfer_hd:
  assumes g: "good m" and wb: "word_before (p, a) = word_before (p', a')"
    and tc: "tails_ok p u t t'"
    and hd: "m (p, u @ t) = y # ys" and y: "snd y = v @ t" and nwa: "\<not> word_after y"
  shows "\<exists>y' ys'. m (p', u @ t') = y' # ys' \<and> snd y' = v @ t'"
proof -
  from g have wf: "wf_matcher m" unfolding good_def by blast
  from transfer_lists [OF g wb tc] obtain t0 t0' where
    l: "list_all2 (sim True t0 t0') (filter (inside t0) (m (p, u @ t))) (m (p', u @ t'))" and
    c: "(t0 = t \<and> t0' = t') \<or> (u \<noteq> [] \<and> t0 = last u # t \<and> t0' = last u # t' \<and> word_after (None, t))"
    by blast
  from c have "\<exists>v0. snd y = v0 @ t0 \<and> v @ t' = v0 @ t0'"
  proof
    assume "t0 = t \<and> t0' = t'"
    with y show ?thesis by blast
  next
    assume a: "u \<noteq> [] \<and> t0 = last u # t \<and> t0' = last u # t' \<and> word_after (None, t)"
    have "v \<noteq> []"
    proof
      assume "v = []"
      with y have "word_after y = word_after (None, t)"
        using word_after_snd [of "fst y" t None] by (cases y) simp
      with a nwa show False by simp
    qed
    from hd have "y \<in> set (m (p, u @ t))" by simp
    from wf_matcherD [OF wf this] obtain w where "u @ t = w @ snd y" by auto
    with y have "u = w @ v" by simp
    with \<open>v \<noteq> []\<close> have "last v = last u" by simp
    with append_butlast_last_id [OF \<open>v \<noteq> []\<close>] have e: "butlast v @ [last u] = v" by simp
    have "v @ r = butlast v @ last u # r" for r
      using arg_cong [OF e, of "\<lambda>l. l @ r"] by simp
    then have "snd y = butlast v @ t0 \<and> v @ t' = butlast v @ t0'" using y a by simp
    then show ?thesis by blast
  qed
  then obtain v0 where v0: "snd y = v0 @ t0" "v @ t' = v0 @ t0'" by blast
  then have "inside t0 y" unfolding inside_def by blast
  with hd have "filter (inside t0) (m (p, u @ t)) = y # filter (inside t0) ys" by simp
  with l have "list_all2 (sim True t0 t0') (y # filter (inside t0) ys) (m (p', u @ t'))" by simp
  then have "\<exists>y' ys'. m (p', u @ t') = y' # ys' \<and> sim True t0 t0' y y'"
    unfolding list_all2_Cons1 by blast
  then obtain y' ys' where r: "m (p', u @ t') = y' # ys'" "sim True t0 t0' y y'" by blast
  from r(2) obtain v1 where "snd y = v1 @ t0" "snd y' = v1 @ t0'" unfolding sim_def by blast
  with v0 have "snd y' = v @ t'" by simp
  with r(1) show ?thesis by blast
qed

subsection \<open>Inside the placeholder\<close>

lemma nowhere_upto_append:
  "nowhere_upto m p (u @ u2) X \<longleftrightarrow>
     nowhere_upto m p u (u2 @ X) \<and> nowhere_upto m (prev_of p u) u2 X"
  by (induction u arbitrary: p) (simp_all add: prev_of_def)

lemma nowhere_upto_transfer:
  assumes g: "good m" and c: "\<not> not_bracket c"
  shows "nowhere_upto m q u [c] \<Longrightarrow> nowhere_upto m q u (c # X)"
proof (induction u arbitrary: q)
  case Nil
  show ?case by simp
next
  case (Cons a u)
  have tc: "tails_ok q (a # u) [c] (c # X)" unfolding tails_ok_def using c by simp
  from Cons.prems have "m (q, (a # u) @ [c]) = []" by simp
  from transfer_empty [OF g refl tc this] have "m (q, a # u @ c # X) = []" by simp
  moreover from Cons.prems have "nowhere_upto m (Some a) u [c]" by simp
  then have "nowhere_upto m (Some a) u (c # X)" by (rule Cons.IH)
  ultimately show ?case by simp
qed

lemma placeholder_fail:
  assumes g: "good m"
  shows "nowhere_upto m p ''[REDACTED]'' X"
proof -
  from g have wf: "wf_matcher m" and ml: "minlen 1 m"
    and ph: "nowhere_upto m (Some CHR ''['') ''REDACTED'' '']''" unfolding good_def by blast+
  have br: "\<not> not_bracket CHR ''[''" "\<not> not_bracket CHR '']''" by (simp_all add: not_bracket_def)
  have 1: "m (p, CHR ''['' # ''REDACTED]'' @ X) = []" by (rule bracket_fail [OF wf ml br(1)])
  have 2: "nowhere_upto m (Some CHR ''['') ''REDACTED'' (CHR '']'' # X)"
    by (rule nowhere_upto_transfer [OF g br(2) ph])
  have 3: "m (Some CHR ''D'', CHR '']'' # X) = []" by (rule bracket_fail [OF wf ml br(2)])
  have "nowhere_upto m (Some CHR ''['') (''REDACTED'' @ '']'') X"
    unfolding nowhere_upto_append using 2 3 by (simp add: prev_of_def)
  with 1 show ?thesis by simp
qed

subsection \<open>One step of the scan of a pattern that consumes\<close>

lemma nomatch_nil: "minlen 1 m \<Longrightarrow> m (p, []) = []"
proof (rule ccontr)
  assume ml: "minlen 1 m" and "m (p, []) \<noteq> []"
  then obtain y where "y \<in> set (m (p, []))" by (cases "m (p, [])") auto
  with ml have "length (snd y) + 1 \<le> length (snd (p, []::string))" unfolding minlen_def by blast
  then show False by simp
qed

lemma scan_nil: "minlen 1 m \<Longrightarrow> scan m p [] = []"
  by (simp add: nomatch_nil)

lemma pass_nil: "minlen 1 m \<Longrightarrow> pass_from m v p [] = []"
  by (simp add: pass_from_def scan_nil del: scan.simps)

lemma scan_Lit: "m (p, c # cs) = [] \<Longrightarrow> scan m p (c # cs) = Lit c # scan m (Some c) cs"
  by simp

lemma pass_Lit:
  "m (p, c # cs) = [] \<Longrightarrow> pass_from m v p (c # cs) = c # pass_from m v (Some c) cs"
  by (simp add: pass_from_def)

lemma scan_match:
  assumes wf: "wf_matcher m" and ml: "minlen 1 m" and hd: "m (p, s) = y # ys"
  obtains M where "s = M @ snd y" "M \<noteq> []" "fst y = Some (last M)" "list_all not_bracket M"
    "scan m p s = Match M # scan m (Some (last M)) (snd y)"
proof -
  from hd have y: "y \<in> set (m (p, s))" by simp
  from wf_matcherD [OF wf y] obtain M where
    M: "snd (p, s) = M @ snd y" "list_all not_bracket M"
       "fst y = (if M = [] then fst (p, s) else Some (last M))" by blast
  from ml y have "length (snd y) + 1 \<le> length (snd (p, s))" unfolding minlen_def by blast
  with M(1) have ne: "M \<noteq> []" by auto
  from M(1) have s: "s = M @ snd y" by simp
  from ne have "M @ snd y \<noteq> []" by simp
  with s have "s \<noteq> []" by simp
  then obtain c cs where c: "s = c # cs" by (cases s) auto
  have len: "Suc (length cs) - length (snd y) = length M"
    using s c by (metis add_diff_cancel_right' length_Cons length_append)
  have lt: "length (snd y) < Suc (length cs)"
    using s c ne by (metis length_Cons length_append length_greater_0_conv less_add_same_cancel2)
  have tk: "take (length M) s = M" "drop (length M) s = snd y"
    by (subst s, simp)+
  have hd': "m (p, c # cs) = y # ys" using hd c by simp
  have tk': "take (length M) (c # cs) = M" "drop (length M) (c # cs) = snd y"
    using tk c by simp_all
  have "scan m p (c # cs) = Match M # scan m (Some (last M)) (snd y)"
    using hd' lt by (simp add: len tk')
  with that [OF s ne _ M(2)] M(3) ne c show thesis by simp
qed

lemma pass_match:
  assumes "scan m p s = Match M # scan m q r"
  shows "pass_from m v p s = (if accepts v M then ''[REDACTED]'' else M) @ pass_from m v q r"
  using assms by (simp add: pass_from_def)

lemma prev_of_Cons: "prev_of p (c # u) = prev_of (Some c) u"
  by (simp add: prev_of_def)

lemma prev_of_append: "M \<noteq> [] \<Longrightarrow> prev_of p (M @ u) = prev_of (Some (last M)) u"
  by (simp add: prev_of_def)

lemma tails_ok_Cons: "tails_ok (Some c) u t t' \<Longrightarrow> tails_ok p (c # u) t t'"
  unfolding tails_ok_def prev_of_Cons .

lemma tails_ok_append: "M \<noteq> [] \<Longrightarrow> tails_ok (Some (last M)) u t t' \<Longrightarrow> tails_ok p (M @ u) t t'"
  unfolding tails_ok_def by (simp add: prev_of_append)

subsection \<open>A text and what a pass leaves of it share a prefix, up to the first redaction\<close>

lemma pass_prefix:
  assumes g: "good k"
  shows "\<exists>u t t'. s = u @ t \<and> pass_from k v p s = u @ t' \<and> tails_ok p u t t'"
proof (induction "length s" arbitrary: s p rule: less_induct)
  case less
  from g have wf: "wf_matcher k" and ml: "minlen 1 k" and sb: "starts_b k"
    unfolding good_def by blast+
  show ?case
  proof (cases s)
    case Nil
    have "tails_ok p [] [] []" unfolding tails_ok_def by simp
    with Nil pass_nil [OF ml] show ?thesis by (intro exI [of _ "[]"]) simp
  next
    case (Cons c cs)
    show ?thesis
    proof (cases "k (p, s)")
      case Nil
      from less [of cs "Some c"] Cons obtain u t t' where
        u: "cs = u @ t" "pass_from k v (Some c) cs = u @ t'" "tails_ok (Some c) u t t'" by auto
      from Nil Cons have "pass_from k v p s = c # pass_from k v (Some c) cs" by (simp add: pass_Lit)
      with u Cons tails_ok_Cons [OF u(3), of p] show ?thesis
        by (intro exI [of _ "c # u"] exI [of _ t] exI [of _ t']) simp
    next
      case (Cons y ys)
      from scan_match [OF wf ml Cons] obtain M where
        M: "s = M @ snd y" "M \<noteq> []" "scan k p s = Match M # scan k (Some (last M)) (snd y)"
        by metis
      show ?thesis
      proof (cases "accepts v M")
        case True
        with pass_match [OF M(3)] have ps: "pass_from k v p s = ''[REDACTED]'' @ pass_from k v (Some (last M)) (snd y)"
          by simp
        from sb Cons have "boundary (p, s)" unfolding starts_b_def by (metis list.distinct(1))
        then have "word_after (None, s) = False \<or> \<not> word_before (p, s)"
          unfolding boundary_def using word_after_snd [of p s None] by auto
        then have "tails_ok p [] s (''[REDACTED]'' @ pass_from k v (Some (last M)) (snd y))"
          unfolding tails_ok_def prev_of_def by (auto simp add: not_bracket_def is_word_def
              is_alpha_def is_digit_def in_range_def less_eq_char_def)
        with ps show ?thesis
          by (intro exI [of _ "[]"] exI [of _ s]
                exI [of _ "''[REDACTED]'' @ pass_from k v (Some (last M)) (snd y)"]) simp
      next
        case False
        with pass_match [OF M(3)] have ps: "pass_from k v p s = M @ pass_from k v (Some (last M)) (snd y)"
          by simp
        from M(1,2) have "length (snd y) < length s" by simp
        from less [OF this, of "Some (last M)"] obtain u t t' where
          u: "snd y = u @ t" "pass_from k v (Some (last M)) (snd y) = u @ t'"
             "tails_ok (Some (last M)) u t t'" by auto
        from ps u M(1) tails_ok_append [OF M(2) u(3), of p] show ?thesis
          by (intro exI [of _ "M @ u"] exI [of _ t] exI [of _ t']) simp
      qed
    qed
  qed
qed

subsection \<open>Scanning over a stretch without a match\<close>

lemma scan_nowhere:
  "nowhere_upto m p u X \<Longrightarrow> scan m p (u @ X) = map Lit u @ scan m (prev_of p u) X"
proof (induction u arbitrary: p)
  case Nil
  show ?case by (simp add: prev_of_def)
next
  case (Cons a u)
  from Cons.prems have 1: "m (p, a # u @ X) = []" and 2: "nowhere_upto m (Some a) u X" by simp_all
  from 1 have "scan m p ((a # u) @ X) = Lit a # scan m (Some a) (u @ X)" by simp
  with Cons.IH [OF 2] show ?case by (simp add: prev_of_Cons)
qed

lemma quiet_lits:
  assumes "nowhere_upto m p u X"
  shows "quiet m v p (u @ X) = quiet m v (prev_of p u) X"
  unfolding quiet_def scan_nowhere [OF assms] by (auto simp add: list_all_iff)

lemma prev_of_prev: "prev_of (prev_of p M) u = prev_of p (M @ u)"
  by (simp add: prev_of_def)

lemma tails_ok_prev: "tails_ok (prev_of p M) u t t' \<Longrightarrow> tails_ok p (M @ u) t t'"
  unfolding tails_ok_def prev_of_prev .

lemma first_position:
  assumes g: "good D" and ctx: "ctx_ok p p' (c # u @ t)"
    and tc: "tails_ok p (c # u) t t'" and e: "D (p, c # u @ t) = []"
  shows "D (p', c # u @ t') = []"
proof (cases "word_before (p, c # u @ t) = word_before (p', c # u @ t)")
  case True
  from transfer_empty [OF g True tc] e show ?thesis by simp
next
  case False
  with ctx have "\<not> word_before (p', c # u @ t)" "\<not> word_after (p, c # u @ t)"
    unfolding ctx_ok_def by blast+
  then have "\<not> boundary (p', c # u @ t')"
    unfolding boundary_def using word_before_fst [of p' "c # u @ t" "c # u @ t'"] by simp
  moreover from g have "starts_b D" unfolding good_def by blast
  ultimately show ?thesis unfolding starts_b_def by blast
qed

lemma ctx_ok_refl: "ctx_ok p p s"
  unfolding ctx_ok_def by simp

lemma ctx_ok_after:
  assumes eb: "ends_b k" and y: "y \<in> set (k x)" and f: "fst y = Some c"
  shows "ctx_ok (Some c) (Some CHR '']'') (snd y)"
proof -
  from eb y have "boundary y" unfolding ends_b_def by blast
  then have "word_before (Some c, snd y) \<noteq> word_after (Some c, snd y)"
    unfolding boundary_def using f by (metis prod.collapse)
  moreover have "\<not> word_before (Some CHR '']'', snd y)"
    using bracket_not_word [of "CHR '']''"] by (simp add: not_bracket_def)
  ultimately show ?thesis unfolding ctx_ok_def by auto
qed

subsection \<open>A pass leaves nothing that the same pass would accept\<close>

lemma self_stable:
  assumes g: "good m" and val: "validated m v"
  shows "ctx_ok p p' s \<Longrightarrow> quiet m v p' (pass_from m v p s)"
proof (induction "length s" arbitrary: s p p' rule: less_induct)
  case less
  from g have wf: "wf_matcher m" and ml: "minlen 1 m" and eb: "ends_b m"
    unfolding good_def by blast+
  show ?case
  proof (cases s)
    case Nil
    then show ?thesis by (simp add: pass_nil [OF ml] quiet_def scan_nil [OF ml] del: scan.simps)
  next
    case (Cons c cs)
    show ?thesis
    proof (cases "m (p, s)")
      case Nil
      let ?X = "pass_from m v (Some c) cs"
      from Nil Cons have ps: "pass_from m v p s = c # ?X" by (simp add: pass_Lit)
      from pass_prefix [OF g, of cs v "Some c"] obtain u t t' where
        u: "cs = u @ t" "?X = u @ t'" "tails_ok (Some c) u t t'" by blast
      from Nil Cons u(1) have e: "m (p, c # u @ t) = []" by simp
      from less.prems Cons u(1) have ctx: "ctx_ok p p' (c # u @ t)" by simp
      from first_position [OF g ctx tails_ok_Cons [OF u(3)] e] u(2)
      have "m (p', c # ?X) = []" by simp
      then have "quiet m v p' (c # ?X) = quiet m v (Some c) ?X"
        unfolding quiet_def by simp
      moreover have "quiet m v (Some c) ?X"
        using less.hyps [of cs "Some c" "Some c"] Cons ctx_ok_refl by simp
      ultimately show ?thesis using ps by simp
    next
      case (Cons y ys)
      from scan_match [OF wf ml Cons] obtain M where
        M: "s = M @ snd y" "M \<noteq> []" "fst y = Some (last M)"
           "scan m p s = Match M # scan m (Some (last M)) (snd y)"
        by metis
      let ?X = "pass_from m v (Some (last M)) (snd y)"
      from M(1,2) have shorter: "length (snd y) < length s" by simp
      from Cons have yin: "y \<in> set (m (p, s))" by simp
      show ?thesis
      proof (cases "accepts v M")
        case True
        with pass_match [OF M(4)] have ps: "pass_from m v p s = ''[REDACTED]'' @ ?X" by simp
        from quiet_lits [OF placeholder_fail [OF g], of v p' ?X]
        have "quiet m v p' (''[REDACTED]'' @ ?X) = quiet m v (Some CHR '']'') ?X"
          by (simp add: prev_of_def)
        moreover have "quiet m v (Some CHR '']'') ?X"
          by (rule less.hyps [OF shorter ctx_ok_after [OF eb yin M(3)]])
        ultimately show ?thesis using ps by simp
      next
        case False
        with pass_match [OF M(4)] have ps: "pass_from m v p s = M @ ?X" by simp
        from False have "v \<noteq> None" unfolding accepts_def by (cases v) simp_all
        with val have sw: "starts_word m" and hw: "hd_ends_word m" unfolding validated_def by blast+
        from sw Cons have "word_after (p, s)" unfolding starts_word_def by (metis list.distinct(1))
        with less.prems have wb: "word_before (p, s) = word_before (p', s)"
          unfolding ctx_ok_def by blast
        from hw Cons have "word_before y" unfolding hd_ends_word_def by blast
        moreover from eb yin have "boundary y" unfolding ends_b_def by blast
        ultimately have nwa: "\<not> word_after y" unfolding boundary_def by simp
        from pass_prefix [OF g, of "snd y" v "Some (last M)"] obtain u t t' where
          u: "snd y = u @ t" "?X = u @ t'" "tails_ok (Some (last M)) u t t'" by blast
        from Cons M(1) u(1) have hd: "m (p, (M @ u) @ t) = y # ys" by simp
        from transfer_hd [OF g wb tails_ok_append [OF M(2) u(3)] hd u(1) nwa]
        obtain y' ys' where y': "m (p', (M @ u) @ t') = y' # ys'" "snd y' = u @ t'" by blast
        with u(2) have hd': "m (p', M @ ?X) = y' # ys'" and sy': "snd y' = ?X" by simp_all
        from scan_match [OF wf ml hd'] obtain M2 where
          M2: "M @ ?X = M2 @ snd y'" "scan m p' (M @ ?X) = Match M2 # scan m (Some (last M2)) (snd y')"
          by metis
        from M2(1) sy' have "M2 = M" by simp
        with M2(2) sy' have "scan m p' (M @ ?X) = Match M # scan m (Some (last M)) ?X" by simp
        then have "quiet m v p' (M @ ?X) = quiet m v (Some (last M)) ?X"
          unfolding quiet_def using False by simp
        moreover have "quiet m v (Some (last M)) ?X"
          by (rule less.hyps [OF shorter ctx_ok_refl])
        ultimately show ?thesis using ps by simp
      qed
    qed
  qed
qed

subsection \<open>A pass leaves no match of another pattern that had none\<close>

lemma block_transfer:
  assumes g: "good D"
  shows "tails_ok (prev_of p M) u t t' \<Longrightarrow> nowhere_upto D p M (u @ t) \<Longrightarrow>
         ctx_ok p p' (M @ u @ t) \<Longrightarrow> nowhere_upto D p' M (u @ t')"
proof (induction M arbitrary: p p')
  case Nil
  show ?case by simp
next
  case (Cons a M)
  from Cons.prems(2) have e: "D (p, a # (M @ u) @ t) = []"
    and r: "nowhere_upto D (Some a) M (u @ t)" by simp_all
  from Cons.prems(1) have tc: "tails_ok p (a # M @ u) t t'"
    using tails_ok_prev [of p "a # M" u t t'] by simp
  from Cons.prems(3) have ctx: "ctx_ok p p' (a # (M @ u) @ t)" by simp
  from first_position [OF g ctx tc e] have 1: "D (p', a # M @ u @ t') = []" by simp
  from Cons.prems(1) have "tails_ok (prev_of (Some a) M) u t t'" by (simp only: prev_of_Cons)
  from Cons.IH [OF this r ctx_ok_refl] have "nowhere_upto D (Some a) M (u @ t')" .
  with 1 show ?case by simp
qed

lemma cross_stable:
  assumes gD: "good D" and gk: "good k"
  shows "nowhere_upto D p s [] \<Longrightarrow> ctx_ok p p' s \<Longrightarrow> nowhere_upto D p' (pass_from k v p s) []"
proof (induction "length s" arbitrary: s p p' rule: less_induct)
  case less
  from gk have wf: "wf_matcher k" and ml: "minlen 1 k" and eb: "ends_b k"
    unfolding good_def by blast+
  have kept: "nowhere_upto D p' (M @ pass_from k v (prev_of p M) r) []"
    if s: "s = M @ r" and ne: "M \<noteq> []" for M r
  proof -
    let ?X = "pass_from k v (prev_of p M) r"
    from s ne have shorter: "length r < length s" by simp
    from less.prems(1) s have n1: "nowhere_upto D p M r" and n2: "nowhere_upto D (prev_of p M) r []"
      using nowhere_upto_append [of D p M r "[]"] by simp_all
    from pass_prefix [OF gk, of r v "prev_of p M"] obtain u t t' where
      u: "r = u @ t" "?X = u @ t'" "tails_ok (prev_of p M) u t t'" by blast
    from less.prems(2) s u(1) have ctx: "ctx_ok p p' (M @ u @ t)" by simp
    from block_transfer [OF gD u(3) _ ctx] n1 u(1,2) have "nowhere_upto D p' M ?X" by simp
    moreover from less.hyps [OF shorter n2 ctx_ok_refl]
    have "nowhere_upto D (prev_of p' M) ?X []" using ne by (simp add: prev_of_def)
    ultimately show ?thesis using nowhere_upto_append [of D p' M ?X "[]"] by simp
  qed
  show ?case
  proof (cases s)
    case Nil
    then show ?thesis by (simp add: pass_nil [OF ml])
  next
    case (Cons c cs)
    show ?thesis
    proof (cases "k (p, s)")
      case Nil
      from Nil Cons have "pass_from k v p s = [c] @ pass_from k v (prev_of p [c]) cs"
        by (simp add: pass_Lit prev_of_def)
      with kept [of "[c]" cs] Cons show ?thesis by simp
    next
      case (Cons y ys)
      from scan_match [OF wf ml Cons] obtain M where
        M: "s = M @ snd y" "M \<noteq> []" "fst y = Some (last M)"
           "scan k p s = Match M # scan k (Some (last M)) (snd y)"
        by metis
      let ?X = "pass_from k v (Some (last M)) (snd y)"
      from M(1,2) have shorter: "length (snd y) < length s" by simp
      from Cons have yin: "y \<in> set (k (p, s))" by simp
      show ?thesis
      proof (cases "accepts v M")
        case True
        with pass_match [OF M(4)] have ps: "pass_from k v p s = ''[REDACTED]'' @ ?X" by simp
        from less.prems(1) M(1,2) have n2: "nowhere_upto D (Some (last M)) (snd y) []"
          using nowhere_upto_append [of D p M "snd y" "[]"] by (simp add: prev_of_def)
        from less.hyps [OF shorter n2 ctx_ok_after [OF eb yin M(3)]]
        have "nowhere_upto D (Some CHR '']'') ?X []" .
        with placeholder_fail [OF gD, of p' ?X] show ?thesis
          unfolding ps using nowhere_upto_append [of D p' "''[REDACTED]''" ?X "[]"]
          by (simp add: prev_of_def)
      next
        case False
        with pass_match [OF M(4)] have "pass_from k v p s = M @ pass_from k v (prev_of p M) (snd y)"
          using M(2) by (simp add: prev_of_def)
        with kept [OF M(1,2)] show ?thesis by simp
      qed
    qed
  qed
qed

subsection \<open>The first match of the card pattern starts and ends with a digit\<close>

lemma is_digit_word: "is_digit c \<Longrightarrow> is_word c"
  by (simp add: is_word_def)

lemma sep_not_word: "c = CHR '' '' \<or> c = CHR ''-'' \<Longrightarrow> \<not> is_word c"
  by (auto simp add: is_word_def is_alpha_def is_digit_def in_range_def less_eq_char_def)

lemma find_append_case:
  "List.find P (xs @ ys) = (case List.find P xs of None \<Rightarrow> List.find P ys | Some a \<Rightarrow> Some a)"
  by (induction xs) simp_all

lemma find_filter_hd: "filter P xs = y # ys \<Longrightarrow> List.find P xs = Some y"
  by (induction xs) (auto split: if_splits)

lemma find_concat_map:
  "List.find P (concat (map g L)) = Some y \<Longrightarrow> \<exists>z \<in> set L. List.find P (g z) = Some y"
  by (induction L) (auto simp add: find_append_case split: option.splits)

lemma concat_map_wordb: "concat (map m_wordb L) = filter boundary L"
  by (induction L) (simp_all add: m_wordb_def boundary_def)

lemma repeat_start: "x \<in> set (m_repeat 0 k m x)"
  by (cases k) simp_all

lemma item_shape:
  fixes x :: pos
  defines "item \<equiv> m_seq (m_char is_digit) (m_lazy_star (m_char (\<lambda>c. c = CHR '' '' \<or> c = CHR ''-'')))"
  shows "item x = [] \<or> (\<exists>y0 rest. item x = y0 # rest \<and> word_before y0 \<and> (rest \<noteq> [] \<longrightarrow> \<not> word_after y0))"
proof -
  obtain p s where x: "x = (p, s)" by (cases x)
  show ?thesis
  proof (cases s)
    case Nil
    with x show ?thesis by (simp add: item_def m_seq_def)
  next
    case (Cons d r)
    show ?thesis
    proof (cases "is_digit d")
      case False
      with x Cons show ?thesis by (simp add: item_def m_seq_def)
    next
      case True
      then have wd: "is_word d" by (rule is_digit_word)
      show ?thesis
      proof (cases r)
        case Nil
        with x Cons True wd show ?thesis
          by (simp add: item_def m_seq_def m_lazy_star_def)
      next
        case (Cons c r')
        show ?thesis
        proof (cases "c = CHR '' '' \<or> c = CHR ''-''")
          case True
          then have "\<not> is_word c" by (rule sep_not_word)
          with x \<open>s = d # r\<close> Cons \<open>is_digit d\<close> wd show ?thesis
            using sep_not_word [of "CHR '' ''"] sep_not_word [of "CHR ''-''"]
            by (simp add: item_def m_seq_def m_lazy_star_def)
        next
          case False
          with x \<open>s = d # r\<close> Cons \<open>is_digit d\<close> wd show ?thesis
            by (simp add: item_def m_seq_def m_lazy_star_def)
        qed
      qed
    qed
  qed
qed

lemma first_boundary_repeat:
  fixes x :: pos
  defines "item \<equiv> m_seq (m_char is_digit) (m_lazy_star (m_char (\<lambda>c. c = CHR '' '' \<or> c = CHR ''-'')))"
  shows "mn \<le> mx \<Longrightarrow> List.find boundary (m_repeat mn mx item x) = Some y \<Longrightarrow>
         word_before y \<or> (mn = 0 \<and> y = x)"
proof (induction mx arbitrary: mn x y)
  case 0
  then show ?case by (simp split: if_splits)
next
  case (Suc mx)
  have ml: "minlen 1 item" unfolding item_def
    by (intro minlen_seq_left minlen_char wf_intros) (auto simp add: not_bracket_def)
  define g where "g = m_repeat (mn - 1) mx item"
  have le: "mn - 1 \<le> mx" using Suc.prems(1) by simp
  have blocks: "m_repeat mn (Suc mx) item x =
      concat (map g (item x)) @ (if mn = 0 then [x] else [])"
  proof (cases "mn = 0")
    case True
    have "map (\<lambda>y. if length (snd y) < length (snd x) then m_repeat 0 mx item y else []) (item x) =
          map (m_repeat 0 mx item) (item x)"
    proof (rule map_cong [OF refl])
      fix y assume "y \<in> set (item x)"
      with ml have "length (snd y) + 1 \<le> length (snd x)" unfolding minlen_def by blast
      then show "(if length (snd y) < length (snd x) then m_repeat 0 mx item y else []) =
                 m_repeat 0 mx item y" by simp
    qed
    then have "concat (map (\<lambda>y. if length (snd y) < length (snd x) then m_repeat 0 mx item y else []) (item x)) =
          concat (map (m_repeat 0 mx item) (item x))" by (rule arg_cong)
    with True show ?thesis unfolding g_def by simp
  next
    case False
    then show ?thesis unfolding g_def by simp
  qed
  have ih: "word_before a" if "z \<in> set (item x)" "List.find boundary (g z) = Some a"
    "word_before z \<or> mn - 1 \<noteq> 0" for z a
    using Suc.IH [OF le, of z a] that unfolding g_def by auto
  from item_shape [of x] consider "item x = []"
    | y0 rest where "item x = y0 # rest" "word_before y0" "rest \<noteq> [] \<longrightarrow> \<not> word_after y0"
    unfolding item_def by blast
  then show ?case
  proof cases
    case 1
    with Suc.prems(2) blocks show ?thesis by (simp split: if_splits)
  next
    case 2
    from Suc.prems(2) have f: "List.find boundary (g y0 @ concat (map g rest) @ (if mn = 0 then [x] else [])) = Some y"
      unfolding blocks 2(1) by simp
    show ?thesis
    proof (cases "List.find boundary (g y0)")
      case (Some a)
      with f have "y = a" by (simp add: find_append_case)
      with ih [of y0 a] Some 2(1,2) show ?thesis by simp
    next
      case None
      with f have f2: "List.find boundary (concat (map g rest) @ (if mn = 0 then [x] else [])) = Some y"
        by (simp add: find_append_case)
      show ?thesis
      proof (cases "rest = []")
        case True
        with f2 show ?thesis by (simp split: if_splits)
      next
        case False
        with 2(2,3) have b0: "boundary y0" unfolding boundary_def by simp
        have pos: "mn - 1 \<noteq> 0"
        proof
          assume "mn - 1 = 0"
          then have "y0 \<in> set (g y0)" unfolding g_def using repeat_start by simp
          with b0 have "\<exists>z. z \<in> set (g y0) \<and> boundary z" by blast
          then have "List.find boundary (g y0) \<noteq> None" unfolding find_None_iff by blast
          with None show False by simp
        qed
        then have "mn \<noteq> 0" by simp
        with f2 have "List.find boundary (concat (map g rest)) = Some y" by simp
        from find_concat_map [OF this] obtain z where z: "z \<in> set rest" "List.find boundary (g z) = Some y"
          by blast
        with ih [of z y] 2(1) pos show ?thesis by simp
      qed
    qed
  qed
qed

lemma hd_ends_word_CREDIT_CARD: "hd_ends_word CREDIT_CARD"
  unfolding hd_ends_word_def
proof (intro allI impI)
  fix x y ys assume hd: "CREDIT_CARD x = y # ys"
  let ?item = "m_seq (m_char is_digit) (m_lazy_star (m_char (\<lambda>c. c = CHR '' '' \<or> c = CHR ''-'')))"
  have cc: "CREDIT_CARD x = (if boundary x then filter boundary (m_repeat 13 19 ?item x) else [])"
    unfolding CREDIT_CARD_def m_seqs.simps
    by (simp add: m_seq_def [of m_wordb] m_seq_def [of "m_repeat 13 19 ?item"] concat_map_wordb
        m_wordb_def boundary_def)
  with hd have "filter boundary (m_repeat 13 19 ?item x) = y # ys" by (simp split: if_splits)
  then have "List.find boundary (m_repeat 13 19 ?item x) = Some y" by (rule find_filter_hd)
  from first_boundary_repeat [OF _ this] show "word_before y" by simp
qed

lemma starts_word_CREDIT_CARD: "starts_word CREDIT_CARD"
  unfolding starts_word_def
proof (intro allI impI)
  fix x assume ne: "CREDIT_CARD x \<noteq> []"
  let ?item = "m_seq (m_char is_digit) (m_lazy_star (m_char (\<lambda>c. c = CHR '' '' \<or> c = CHR ''-'')))"
  have rep: "m_repeat 13 19 ?item z = concat (map (m_repeat 12 18 ?item) (?item z))" for z
    using m_repeat.simps(2) [of 13 18 ?item z] by simp
  have "m_char is_digit x \<noteq> []"
  proof
    assume "m_char is_digit x = []"
    then have "?item x = []" by (simp add: m_seq_def)
    then have "m_repeat 13 19 ?item x = []" unfolding rep by simp
    then have "CREDIT_CARD x = []"
      unfolding CREDIT_CARD_def m_seqs.simps
      by (simp add: m_seq_def [of m_wordb] m_seq_def [of "m_repeat 13 19 ?item"] m_wordb_def)
    with ne show False by simp
  qed
  then obtain z where "z \<in> set (m_char is_digit x)" by (cases "m_char is_digit x") auto
  then obtain c cs where "snd x = c # cs" "is_digit c" unfolding in_m_char by auto
  then show "word_after x" using is_digit_word by (cases x) simp
qed

lemma validated_CREDIT_CARD: "validated CREDIT_CARD v"
  unfolding validated_def using starts_word_CREDIT_CARD hd_ends_word_CREDIT_CARD by simp

lemma validated_None: "validated m None"
  unfolding validated_def by simp

subsection \<open>Quiet passes change nothing\<close>

lemma scan_text: "concat (map (render (Some (\<lambda>w. False)) ph) (scan m p s)) = s"
proof (induction m p s rule: scan.induct)
  case (1 m p)
  show ?case by (cases "m (p, [])") (simp_all add: accepts_def)
next
  case (2 m p c cs)
  show ?case
  proof (cases "m (p, c # cs)")
    case Nil
    with 2(1) show ?thesis by simp
  next
    case (Cons y ys)
    show ?thesis
    proof (cases "length (snd y) < Suc (length cs)")
      case True
      from 2(2) [OF Cons True] Cons True show ?thesis
        by (simp add: accepts_def del: take_Suc_Cons drop_Suc_Cons)
    next
      case False
      from 2(3) [OF Cons False] Cons False show ?thesis by (simp add: accepts_def)
    qed
  qed
qed

lemma quiet_pass:
  assumes "quiet m v p s"
  shows "pass_from m v p s = s" and "filter (counted v) (scan m p s) = []"
proof -
  have "render v ''[REDACTED]'' seg = render (Some (\<lambda>w. False)) ''[REDACTED]'' seg"
    if "seg \<in> set (scan m p s)" for seg
  proof -
    from assms that have "\<not> counted v seg" unfolding quiet_def by (simp add: list_all_iff)
    then show ?thesis by (cases seg) (simp_all add: accepts_def)
  qed
  then have "map (render v ''[REDACTED]'') (scan m p s) =
             map (render (Some (\<lambda>w. False)) ''[REDACTED]'') (scan m p s)" by simp
  then show "pass_from m v p s = s" unfolding pass_from_def by (simp only: scan_text)
  from assms show "filter (counted v) (scan m p s) = []"
    unfolding quiet_def by (simp add: list_all_iff filter_empty_conv)
qed

lemma nowhere_quiet:
  assumes "minlen 1 m" "nowhere_upto m p s []"
  shows "quiet m v p s"
proof -
  from scan_nowhere [OF assms(2)] scan_nil [OF assms(1)]
  have "scan m p s = map Lit s" by (simp del: scan.simps)
  then show ?thesis unfolding quiet_def by (simp add: list_all_iff)
qed

lemma quiet_nowhere: "quiet m None p s \<Longrightarrow> nowhere_upto m p s []"
proof (induction s arbitrary: p)
  case Nil
  show ?case by simp
next
  case (Cons c cs)
  show ?case
  proof (cases "m (p, c # cs)")
    case Nil
    with Cons.prems have "quiet m None (Some c) cs" unfolding quiet_def by simp
    from Cons.IH [OF this] Nil show ?thesis by simp
  next
    case (Cons y ys)
    with Cons.prems show ?thesis unfolding quiet_def by (simp add: accepts_def split: if_splits)
  qed
qed

lemma pass_text_from: "pass_text m v s = pass_from m v None s"
  by (simp add: pass_text_def pass_from_def)

subsection \<open>The text the pipe leaves\<close>

lemma applyRedaction_text:
  "redactedText (applyRedaction m ''[REDACTED]'' ty v st) = pass_text m v (redactedText st)"
  by (simp add: applyRedaction_eq pass_text_def)

lemma redact_text:
  "redactedText (redact text) =
     pass_text CREDIT_CARD (Some isValidCreditCard)
       (pass_text PHONE_US None (pass_text SSN_US None (pass_text EMAIL None (pass_text IPV4 None text))))"
  by (simp add: redact_def applyRedaction_text)

lemma applyRedaction_quiet:
  assumes "quiet m v None (redactedText st)"
  shows "applyRedaction m ''[REDACTED]'' ty v st =
     \<lparr> redactedText = redactedText st, totalRedactions = totalRedactions st,
       redactionMap = obj_set (redactionMap st) ty (or_zero (map_of (redactionMap st) ty)) \<rparr>"
  using quiet_pass [OF assms]
  by (simp add: applyRedaction_eq accepted_count_def pass_from_def)

lemma redact_fixed:
  assumes "quiet IPV4 None None s" "quiet EMAIL None None s" "quiet SSN_US None None s"
    "quiet PHONE_US None None s" "quiet CREDIT_CARD (Some isValidCreditCard) None s"
  shows "redact s =
     \<lparr> redactedText = s, totalRedactions = 0,
       redactionMap = [(''ipv4'', 0), (''email'', 0), (''ssn_us'', 0), (''phone_us'', 0),
                       (''credit_card'', 0)] \<rparr>"
  unfolding redact_def using assms
  by (simp add: applyRedaction_quiet or_zero_def)

lemma ctx_ok_None: "ctx_ok None None s"
  by (rule ctx_ok_refl)

lemma good_minlen: "good m \<Longrightarrow> minlen 1 m"
  unfolding good_def by blast

lemma own_pass_free:
  assumes "good m"
  shows "nowhere_upto m None (pass_text m None s) []"
  using self_stable [OF assms validated_None ctx_ok_None, of s]
  unfolding pass_text_from by (rule quiet_nowhere)

lemma later_pass_free:
  assumes "good D" "good k" "nowhere_upto D None s []"
  shows "nowhere_upto D None (pass_text k v s) []"
  unfolding pass_text_from by (rule cross_stable [OF assms(1,2,3) ctx_ok_None])

text \<open>
  C5.  Redaction is idempotent: for every text, running the pipe on the text it has left
  returns that text unchanged, with a total of zero and zero for every type.
\<close>

theorem C5_idempotent:
  "redact (redactedText (redact text)) =
     \<lparr> redactedText = redactedText (redact text), totalRedactions = 0,
       redactionMap = [(''ipv4'', 0), (''email'', 0), (''ssn_us'', 0), (''phone_us'', 0),
                       (''credit_card'', 0)] \<rparr>"
proof -
  let ?v = "Some isValidCreditCard"
  let ?t1 = "pass_text IPV4 None text"
  let ?t2 = "pass_text EMAIL None ?t1"
  let ?t3 = "pass_text SSN_US None ?t2"
  let ?t4 = "pass_text PHONE_US None ?t3"
  let ?t5 = "pass_text CREDIT_CARD ?v ?t4"
  note g = good_patterns
  have "nowhere_upto IPV4 None ?t5 []"
    by (intro later_pass_free own_pass_free g)
  then have 1: "quiet IPV4 None None ?t5" by (rule nowhere_quiet [OF good_minlen [OF g(1)]])
  have "nowhere_upto EMAIL None ?t5 []"
    by (intro later_pass_free own_pass_free g)
  then have 2: "quiet EMAIL None None ?t5" by (rule nowhere_quiet [OF good_minlen [OF g(2)]])
  have "nowhere_upto SSN_US None ?t5 []"
    by (intro later_pass_free own_pass_free g)
  then have 3: "quiet SSN_US None None ?t5" by (rule nowhere_quiet [OF good_minlen [OF g(3)]])
  have "nowhere_upto PHONE_US None ?t5 []"
    by (intro later_pass_free own_pass_free g)
  then have 4: "quiet PHONE_US None None ?t5" by (rule nowhere_quiet [OF good_minlen [OF g(4)]])
  have 5: "quiet CREDIT_CARD ?v None ?t5"
    using self_stable [OF g(5) validated_CREDIT_CARD ctx_ok_None, of ?v ?t4]
    unfolding pass_text_from .
  from redact_fixed [OF 1 2 3 4 5] show ?thesis unfolding redact_text .
qed

lemma redact_ssn_text:
  "redactedText (redact ''My SSN is 123-45-6789.'') = ''My SSN is [REDACTED].''"
  by code_simp

theorem C5_idempotent_witness:
  "redact ''My SSN is [REDACTED].'' =
     \<lparr> redactedText = ''My SSN is [REDACTED].'', totalRedactions = 0,
       redactionMap = [(''ipv4'', 0), (''email'', 0), (''ssn_us'', 0), (''phone_us'', 0),
                       (''credit_card'', 0)] \<rparr>"
  using C5_idempotent [of "''My SSN is 123-45-6789.''"] unfolding redact_ssn_text .

end
